theory Spec2Isabelle
  imports Main "HOL-Library.Sublist"
begin

section \<open>The environment of the sidecar and what it does to it\<close>

text \<open>
  The scripts \<^verbatim>\<open>scripts/public_ip.py\<close>, \<^verbatim>\<open>scripts/current_time.py\<close> and
  \<^verbatim>\<open>whatsmyip.py\<close> talk to three collaborators: the Redis store, the HTTP lookup
  services and the clock (\<^verbatim>\<open>time.sleep\<close>). Every call to one of them is an event of a
  trace, recorded with the answer the collaborator gave. The answers are not computed by
  the program, so they are inputs of the model: the event that is appended at position
  \<open>n\<close> of the trace receives the answer the environment holds for position \<open>n\<close>.

  Strings are lists of 8-bit characters, read as the code points U+0000 to U+00FF.
  Client handles are numbers: a client object created by \<^verbatim>\<open>redis.Redis(...)\<close> is named
  by the position of its first ping in the trace.
\<close>

datatype outcome = Ok | ConnectionError | OtherError
  \<comment> \<open>a Redis call returns, raises \<^verbatim>\<open>redis.ConnectionError\<close>, or raises another \<^verbatim>\<open>Exception\<close>\<close>

datatype http_result =
    Response int string   \<comment> \<open>status code and body text\<close>
  | Timeout               \<comment> \<open>\<^verbatim>\<open>requests.Timeout\<close>\<close>
  | RequestException      \<comment> \<open>any other \<^verbatim>\<open>requests.RequestException\<close>\<close>
  | OtherException        \<comment> \<open>any other \<^verbatim>\<open>Exception\<close>\<close>

datatype event =
    HttpGet string http_result          \<comment> \<open>\<^verbatim>\<open>requests.get(service, timeout=...)\<close>\<close>
  | Sleep nat                           \<comment> \<open>\<^verbatim>\<open>time.sleep(seconds)\<close>\<close>
  | Ping nat outcome                    \<comment> \<open>\<^verbatim>\<open>_redis_client.ping()\<close> on the cached handle\<close>
  | Connect nat string int outcome      \<comment> \<open>first \<^verbatim>\<open>client.ping()\<close> of a new client: handle, host, port\<close>
  | SetKey nat string string outcome    \<comment> \<open>\<^verbatim>\<open>redis_client.set(key, value)\<close>: handle, key, published address\<close>

record env =
  REDIS_HOST :: "string option"         \<comment> \<open>\<^verbatim>\<open>os.getenv('REDIS_HOST')\<close>\<close>
  REDIS_PORT :: "string option"         \<comment> \<open>\<^verbatim>\<open>os.getenv('REDIS_PORT')\<close>, before the default\<close>
  int_max_str_digits :: nat             \<comment> \<open>the interpreter's digit limit for \<^verbatim>\<open>int\<close>: 4300 unless set, 0 for none\<close>
  redis_out :: "nat \<Rightarrow> outcome"         \<comment> \<open>answer to the Redis call at a trace position\<close>
  http_out :: "nat \<Rightarrow> http_result"      \<comment> \<open>answer to the HTTP request at a trace position\<close>
  probe_raises :: "nat \<Rightarrow> bool"         \<comment> \<open>in iteration \<open>n\<close> an exception escapes from \<^verbatim>\<open>get_public_ip()\<close>\<close>
  publish_raises :: "nat \<Rightarrow> bool"       \<comment> \<open>in iteration \<open>n\<close> an exception escapes from \<^verbatim>\<open>post_to_redis(...)\<close>\<close>

record world =
  redis_client_global :: "nat option"   \<comment> \<open>the module variable \<^verbatim>\<open>_redis_client\<close>\<close>
  trace :: "event list"

definition emit :: "event \<Rightarrow> world \<Rightarrow> world" where
  "emit e w = w\<lparr>trace := trace w @ [e]\<rparr>"

definition now :: "world \<Rightarrow> nat" where
  "now w = length (trace w)"

section \<open>Python's string helpers\<close>

definition is_space :: "char \<Rightarrow> bool" where
  \<comment> \<open>\<^verbatim>\<open>str.isspace\<close> on the code points below 256\<close>
  "is_space c =
     (c \<in> set [CHR 0x09, CHR 0x0A, CHR 0x0B, CHR 0x0C, CHR 0x0D, CHR 0x1C, CHR 0x1D, CHR 0x1E,
               CHR 0x1F, CHR 0x20, CHR 0x85, CHR 0xA0])"

definition strip :: "string \<Rightarrow> string" where
  "strip s = rev (dropWhile is_space (rev (dropWhile is_space s)))"

fun split_on :: "char \<Rightarrow> string \<Rightarrow> string list" where
  \<comment> \<open>\<^verbatim>\<open>s.split(sep)\<close> for a one-character separator\<close>
  "split_on sep [] = [[]]"
| "split_on sep (c # cs) =
     (if c = sep then [] # split_on sep cs
      else (case split_on sep cs of [] \<Rightarrow> [[c]] | p # ps \<Rightarrow> (c # p) # ps))"

definition is_digit :: "char \<Rightarrow> bool" where
  "is_digit c = (c \<in> set ''0123456789'')"

fun parse_digits :: "nat \<Rightarrow> string \<Rightarrow> nat option" where
  \<comment> \<open>decimal digits, a single underscore allowed between two digits\<close>
  "parse_digits acc [] = Some acc"
| "parse_digits acc (c # cs) =
     (if is_digit c then parse_digits (10 * acc + (of_char c - 48)) cs
      else if c = CHR ''_'' \<and> cs \<noteq> [] \<and> is_digit (hd cs) then parse_digits acc cs
      else None)"

definition parse_unsigned :: "string \<Rightarrow> nat option" where
  "parse_unsigned s = (case s of [] \<Rightarrow> None | c # cs \<Rightarrow> if is_digit c then parse_digits 0 s else None)"

definition is_int_space :: "char \<Rightarrow> bool" where
  \<comment> \<open>what \<^verbatim>\<open>int\<close> skips at both ends of a text: the six ASCII blanks of C's \<^verbatim>\<open>isspace\<close>,
      and the white space above U+007F, which \<^verbatim>\<open>int\<close> first replaces by a blank. The
      separators U+001C to U+001F are white space for \<^verbatim>\<open>str.strip\<close> but not for \<^verbatim>\<open>int\<close>.\<close>
  "is_int_space c =
     (c \<in> set [CHR 0x09, CHR 0x0A, CHR 0x0B, CHR 0x0C, CHR 0x0D, CHR 0x20, CHR 0x85, CHR 0xA0])"

definition strip_int :: "string \<Rightarrow> string" where
  "strip_int s = rev (dropWhile is_int_space (rev (dropWhile is_int_space s)))"

definition too_many_digits :: "nat \<Rightarrow> string \<Rightarrow> bool" where
  \<comment> \<open>the interpreter's limit on the digits of a decimal text
      (\<^verbatim>\<open>sys.get_int_max_str_digits()\<close>): no text of up to 640 digits is refused, and the
      limit 0 switches the check off\<close>
  "too_many_digits limit s =
     (let digits = length (filter is_digit s)
      in 640 < digits \<and> 0 < limit \<and> limit < digits)"

definition py_int :: "nat \<Rightarrow> string \<Rightarrow> int option" where
  \<comment> \<open>\<^verbatim>\<open>int(s)\<close> under a digit limit: \<open>None\<close> stands for \<^verbatim>\<open>ValueError\<close>\<close>
  "py_int limit s =
     (case strip_int s of
        [] \<Rightarrow> None
      | c # cs \<Rightarrow>
          (let negative = (c = CHR ''-'');
               body = (if c = CHR ''-'' \<or> c = CHR ''+'' then cs else c # cs)
           in case parse_unsigned body of
                None \<Rightarrow> None
              | Some n \<Rightarrow>
                  if too_many_digits limit body then None
                  else Some (if negative then - int n else int n)))"

section \<open>The shared store connection: \<^verbatim>\<open>get_redis_client\<close>\<close>

text \<open>
  \<^verbatim>\<open>get_redis_client\<close> is the same function in \<^verbatim>\<open>scripts/public_ip.py\<close> (lines 26 to 70)
  and \<^verbatim>\<open>scripts/current_time.py\<close> (lines 18 to 62). Its parameter \<^verbatim>\<open>retry\<close> only
  selects a log line and is left out. \<open>connect_redis\<close> is the second \<^verbatim>\<open>try\<close> block:
  both \<^verbatim>\<open>except\<close> clauses return \<^verbatim>\<open>None\<close>, so the \<^verbatim>\<open>ValueError\<close> of \<^verbatim>\<open>int(...)\<close> and
  every failure of the first ping end in \<open>None\<close>.
\<close>

definition connect_redis :: "env \<Rightarrow> world \<Rightarrow> nat option \<times> world" where
  "connect_redis env w =
     (case py_int (int_max_str_digits env) (case REDIS_PORT env of None \<Rightarrow> ''6379'' | Some p \<Rightarrow> p) of
        None \<Rightarrow> (None, w)
      | Some redis_port \<Rightarrow>
          (case REDIS_HOST env of
             None \<Rightarrow> (None, w)
           | Some redis_host \<Rightarrow>
               if redis_host = [] then (None, w)
               else
                 (let client = now w;
                      r = redis_out env (now w);
                      w' = emit (Connect client redis_host redis_port r) w
                  in if r = Ok then (Some client, w'\<lparr>redis_client_global := Some client\<rparr>)
                     else (None, w'))))"

definition get_redis_client :: "env \<Rightarrow> world \<Rightarrow> nat option \<times> world" where
  "get_redis_client env w =
     (case redis_client_global w of
        None \<Rightarrow> connect_redis env w
      | Some h \<Rightarrow>
          (let r = redis_out env (now w);
               w' = emit (Ping h r) w
           in if r = Ok then (Some h, w')
              else connect_redis env (w'\<lparr>redis_client_global := None\<rparr>)))"

section \<open>The probes\<close>

text \<open>
  \<^verbatim>\<open>get_public_ip\<close> of \<^verbatim>\<open>scripts/public_ip.py\<close> (lines 72 to 101). \<open>attempts\<close> is the
  inner \<^verbatim>\<open>for attempt in range(max_retries)\<close> loop over the attempts that are left; its
  result \<open>None\<close> means that the outer loop goes on with the next service (after a
  \<^verbatim>\<open>break\<close> or when the attempts are used up). A response that is not 200 or not
  shaped like an address falls out of the \<^verbatim>\<open>try\<close> and the loop takes the next attempt.
\<close>

definition ip_services :: "string list" where
  "ip_services =
     [''https://api.ipify.org?format=text'', ''https://ifconfig.me/ip'', ''https://icanhazip.com'']"

definition valid_ip :: "string \<Rightarrow> bool" where
  \<comment> \<open>\<^verbatim>\<open>ip and len(ip.split('.')) == 4\<close>\<close>
  "valid_ip ip = (ip \<noteq> [] \<and> length (split_on CHR ''.'' ip) = 4)"

fun attempts :: "env \<Rightarrow> string \<Rightarrow> nat \<Rightarrow> nat list \<Rightarrow> world \<Rightarrow> string option \<times> world" where
  "attempts env service max_retries [] w = (None, w)"
| "attempts env service max_retries (attempt # rest) w =
     (let r = http_out env (now w);
          w1 = emit (HttpGet service r) w
      in case r of
           Response status_code body \<Rightarrow>
             if status_code = 200 then
               (let ip = strip body
                in if valid_ip ip then (Some ip, w1)
                   else attempts env service max_retries rest w1)
             else attempts env service max_retries rest w1
         | Timeout \<Rightarrow>
             if int attempt < int max_retries - 1
             then attempts env service max_retries rest (emit (Sleep (2 ^ attempt)) w1)
             else attempts env service max_retries rest w1
         | RequestException \<Rightarrow> (None, w1)
         | OtherException \<Rightarrow> (None, w1))"

fun services_loop :: "env \<Rightarrow> nat \<Rightarrow> string list \<Rightarrow> world \<Rightarrow> string option \<times> world" where
  "services_loop env max_retries [] w = (None, w)"
| "services_loop env max_retries (service # rest) w =
     (case attempts env service max_retries [0..<max_retries] w of
        (Some ip, w') \<Rightarrow> (Some ip, w')
      | (None, w') \<Rightarrow> services_loop env max_retries rest w')"

definition get_public_ip :: "env \<Rightarrow> nat \<Rightarrow> world \<Rightarrow> string option \<times> world" where
  "get_public_ip env max_retries w = services_loop env max_retries ip_services w"

text \<open>
  \<^verbatim>\<open>IPMonitor.get_public_ip\<close> of \<^verbatim>\<open>whatsmyip.py\<close> (lines 22 to 34) and
  \<^verbatim>\<open>scripts/whatsmyip.py\<close> (lines 25 to 37): one request per service, every exception
  moves on to the next service.
\<close>

record IPMonitor =
  check_interval :: nat
  current_ip :: "string option"
  running :: bool
  monitor_services :: "string list"     \<comment> \<open>the field \<^verbatim>\<open>self.ip_services\<close>\<close>

definition IPMonitor_init :: "nat \<Rightarrow> IPMonitor" where
  "IPMonitor_init interval =
     \<lparr>check_interval = interval, current_ip = None, running = False,
      monitor_services = ip_services\<rparr>"

fun monitor_loop_services :: "env \<Rightarrow> string list \<Rightarrow> world \<Rightarrow> string option \<times> world" where
  "monitor_loop_services env [] w = (None, w)"
| "monitor_loop_services env (service # rest) w =
     (let r = http_out env (now w);
          w1 = emit (HttpGet service r) w
      in case r of
           Response status_code body \<Rightarrow>
             if status_code = 200 then
               (let ip = strip body
                in if ip \<noteq> [] then (Some ip, w1)
                   else monitor_loop_services env rest w1)
             else monitor_loop_services env rest w1
         | _ \<Rightarrow> monitor_loop_services env rest w1)"

definition IPMonitor_get_public_ip :: "env \<Rightarrow> IPMonitor \<Rightarrow> world \<Rightarrow> string option \<times> world" where
  "IPMonitor_get_public_ip env self w = monitor_loop_services env (monitor_services self) w"

section \<open>The publish pipeline: \<^verbatim>\<open>post_to_redis\<close>\<close>

text \<open>
  \<^verbatim>\<open>post_to_redis\<close> of \<^verbatim>\<open>scripts/public_ip.py\<close> (lines 103 to 143) and of
  \<^verbatim>\<open>scripts/current_time.py\<close> (lines 64 to 95) differ in the key and the payload only,
  which are parameters here. The payload of the address script is a JSON text of the
  address and of clock readings; the model keeps the address. \<open>set_attempts\<close> is the
  \<^verbatim>\<open>for attempt in range(max_retries)\<close> loop. After a failed reconnection the local
  \<^verbatim>\<open>redis_client\<close> is \<^verbatim>\<open>None\<close>, so the next attempt's \<^verbatim>\<open>redis_client.set\<close> raises
  \<^verbatim>\<open>AttributeError\<close>, which the \<^verbatim>\<open>except Exception\<close> clause turns into \<^verbatim>\<open>False\<close>.
\<close>

fun set_attempts ::
  "env \<Rightarrow> string \<Rightarrow> string \<Rightarrow> nat \<Rightarrow> nat list \<Rightarrow> nat option \<Rightarrow> world \<Rightarrow> bool \<times> world" where
  "set_attempts env key val max_retries [] redis_client w = (False, w)"
| "set_attempts env key val max_retries (attempt # rest) redis_client w =
     (case redis_client of
        None \<Rightarrow> (False, w)
      | Some h \<Rightarrow>
          (let r = redis_out env (now w);
               w1 = emit (SetKey h key val r) w
           in case r of
                Ok \<Rightarrow> (True, w1)
              | ConnectionError \<Rightarrow>
                  if int attempt < int max_retries - 1 then
                    (case get_redis_client env w1 of
                       (None, w2) \<Rightarrow>
                         set_attempts env key val max_retries rest None (emit (Sleep (2 ^ attempt)) w2)
                     | (Some h', w2) \<Rightarrow>
                         set_attempts env key val max_retries rest (Some h') w2)
                  else (False, w1)
              | OtherError \<Rightarrow> (False, w1)))"

definition post_to_redis ::
  "env \<Rightarrow> string \<Rightarrow> nat option \<Rightarrow> string \<Rightarrow> nat \<Rightarrow> world \<Rightarrow> bool \<times> world" where
  "post_to_redis env key redis_client val max_retries w =
     (case redis_client of
        Some h \<Rightarrow> set_attempts env key val max_retries [0..<max_retries] (Some h) w
      | None \<Rightarrow>
          (case get_redis_client env w of
             (None, w1) \<Rightarrow> (False, w1)
           | (Some h, w1) \<Rightarrow> set_attempts env key val max_retries [0..<max_retries] (Some h) w1))"

definition ip_key :: string where
  "ip_key = ''ip.control.publicIp''"

section \<open>The poll loop: \<^verbatim>\<open>main\<close> of \<^verbatim>\<open>scripts/public_ip.py\<close>\<close>

text \<open>
  The local variables of \<^verbatim>\<open>main\<close> (lines 152 to 159) are a record. One pass through the
  body of \<^verbatim>\<open>while True\<close> (lines 165 to 205) is \<open>main_step\<close>; \<open>on_exception\<close> is the
  \<^verbatim>\<open>except Exception\<close> clause (lines 191 to 205). The counters start at 0 and are only
  incremented or reset, so they are natural numbers.

  \<^verbatim>\<open>get_public_ip\<close> and \<^verbatim>\<open>post_to_redis\<close> catch the failures of their collaborators
  themselves. An exception that nevertheless escapes from one of the two calls is an
  input of the model (\<open>probe_raises\<close>, \<open>publish_raises\<close>, by iteration number); the model
  places it at the start of the call, before the call's first request.
  \<^verbatim>\<open>KeyboardInterrupt\<close> is not an \<^verbatim>\<open>Exception\<close> and ends the loop; the model describes the
  iterations before it.
\<close>

record loop_state =
  iteration :: nat
  consecutive_errors :: nat
  last_successful_ip :: "string option"
  redis_client :: "nat option"

definition max_consecutive_errors :: nat where
  "max_consecutive_errors = 10"

definition sleep_interval :: nat where
  "sleep_interval = 60"

definition on_exception :: "env \<Rightarrow> loop_state \<times> world \<Rightarrow> loop_state \<times> world" where
  "on_exception env s =
     (case s of (ls, w) \<Rightarrow>
        (let errs = consecutive_errors ls + 1
         in if errs \<ge> max_consecutive_errors then
              (case get_redis_client env (emit (Sleep 300) w) of
                 (c, w') \<Rightarrow> (ls\<lparr>consecutive_errors := 0, redis_client := c\<rparr>, w'))
            else (ls\<lparr>consecutive_errors := errs\<rparr>, emit (Sleep (min (2 ^ errs) 60)) w)))"

definition main_step :: "env \<Rightarrow> loop_state \<times> world \<Rightarrow> loop_state \<times> world" where
  "main_step env s =
     (case s of (ls0, w) \<Rightarrow>
        (let ls = ls0\<lparr>iteration := iteration ls0 + 1\<rparr>
         in if probe_raises env (iteration ls) then on_exception env (ls, w)
            else
              (case get_public_ip env 3 w of
                 (public_ip, w1) \<Rightarrow>
                   (let probe_failed =
                          (ls\<lparr>consecutive_errors := consecutive_errors ls + 1\<rparr>,
                           emit (Sleep sleep_interval) w1)
                    in case public_ip of
                         None \<Rightarrow> probe_failed
                       | Some ip \<Rightarrow>
                           if ip = [] then probe_failed
                           else if Some ip \<noteq> last_successful_ip ls then
                             if publish_raises env (iteration ls) then on_exception env (ls, w1)
                             else
                               (case post_to_redis env ip_key (redis_client ls) ip 3 w1 of
                                  (True, w2) \<Rightarrow>
                                    (ls\<lparr>last_successful_ip := Some ip, consecutive_errors := 0\<rparr>,
                                     emit (Sleep sleep_interval) w2)
                                | (False, w2) \<Rightarrow>
                                    (ls\<lparr>consecutive_errors := consecutive_errors ls + 1\<rparr>,
                                     emit (Sleep sleep_interval) w2))
                           else (ls\<lparr>consecutive_errors := 0\<rparr>, emit (Sleep sleep_interval) w1)))))"

fun main_loop :: "env \<Rightarrow> nat \<Rightarrow> loop_state \<times> world \<Rightarrow> loop_state \<times> world" where
  \<comment> \<open>the first \<open>n\<close> iterations of \<^verbatim>\<open>while True\<close>\<close>
  "main_loop env 0 s = s"
| "main_loop env (Suc n) s = main_loop env n (main_step env s)"

definition initial_world :: world where
  "initial_world = \<lparr>redis_client_global = None, trace = []\<rparr>"

definition main_init :: "env \<Rightarrow> world \<Rightarrow> loop_state \<times> world" where
  \<comment> \<open>lines 152 to 159: the first connection attempt and the initial values\<close>
  "main_init env w =
     (case get_redis_client env w of
        (c, w') \<Rightarrow>
          (\<lparr>iteration = 0, consecutive_errors = 0, last_successful_ip = None, redis_client = c\<rparr>, w'))"

definition main :: "env \<Rightarrow> nat \<Rightarrow> loop_state \<times> world" where
  "main env n = main_loop env n (main_init env initial_world)"

section \<open>The monitor thread: \<^verbatim>\<open>monitor_loop\<close> and \<^verbatim>\<open>stop_monitoring\<close> of \<^verbatim>\<open>whatsmyip.py\<close>\<close>

text \<open>
  The body of the background thread (\<^verbatim>\<open>monitor_loop\<close>, lines 64 to 68) and
  \<^verbatim>\<open>stop_monitoring\<close> (lines 74 to 79) run in two threads, and what is asked of them is a
  delay, so they are modelled over a logical clock that counts whole seconds.
  \<open>stop_at\<close> is the instant at which \<^verbatim>\<open>stop_monitoring\<close> assigns \<^verbatim>\<open>self.running = False\<close>;
  the thread reads the flag as false at the instant \<open>t\<close> exactly when \<open>stop_at \<le> t\<close>.
  \<^verbatim>\<open>time.sleep(n)\<close> advances the clock of the thread by \<open>n\<close> and nothing interrupts it;
  \<^verbatim>\<open>check_ip\<close> is given no duration (its requests can only keep the thread longer). The
  thread reads the flag at two places only: the condition of \<^verbatim>\<open>while\<close>, and the guard
  after \<^verbatim>\<open>time.sleep\<close> has returned.

  \<open>monitor_loop\<close> returns the instant at which the condition of \<^verbatim>\<open>while\<close> is found false,
  which is the end of the thread, and the number of calls of \<^verbatim>\<open>check_ip\<close> made until
  then. With \<^verbatim>\<open>check_interval = 0\<close> and the flag still set, the logical clock never
  advances; that run is the value \<open>None\<close>.
\<close>

function monitor_loop :: "nat \<Rightarrow> nat \<Rightarrow> nat \<Rightarrow> nat \<Rightarrow> (nat \<times> nat) option" where
  "monitor_loop interval stop_at t checks =
     (if stop_at \<le> t then Some (t, checks)
      else if interval = 0 then None
      else if stop_at \<le> t + interval then monitor_loop interval stop_at (t + interval) checks
      else monitor_loop interval stop_at (t + interval) (checks + 1))"
  by pat_completeness auto

termination monitor_loop
  by (relation "measure (\<lambda>(interval, stop_at, t, checks). stop_at - t)") auto

declare monitor_loop.simps [simp del]




section \<open>Vocabulary of the properties\<close>

definition store_disabled :: "env \<Rightarrow> bool" where
  \<comment> \<open>the configurations in which \<open>connect_redis\<close> gives up before any request\<close>
  "store_disabled env =
     (REDIS_HOST env = None \<or> REDIS_HOST env = Some [] \<or>
      py_int (int_max_str_digits env) (case REDIS_PORT env of None \<Rightarrow> ''6379'' | Some p \<Rightarrow> p) = None)"

definition never_connected :: "loop_state \<times> world \<Rightarrow> bool" where
  "never_connected s =
     (redis_client (fst s) = None \<and> redis_client_global (snd s) = None \<and>
      last_successful_ip (fst s) = None)"

datatype ending =
    ProbeRaised world      \<comment> \<open>an exception escaped from \<^verbatim>\<open>get_public_ip()\<close>\<close>
  | ProbeFailed world      \<comment> \<open>the probe returned no address\<close>
  | Skipped world          \<comment> \<open>the address equals \<^verbatim>\<open>last_successful_ip\<close>: no publish\<close>
  | PublishRaised world    \<comment> \<open>an exception escaped from \<^verbatim>\<open>post_to_redis(...)\<close>\<close>
  | Published world        \<comment> \<open>\<^verbatim>\<open>post_to_redis\<close> returned \<^verbatim>\<open>True\<close>\<close>
  | PublishFailed world    \<comment> \<open>\<^verbatim>\<open>post_to_redis\<close> returned \<^verbatim>\<open>False\<close>\<close>

text \<open>
  How the iteration that starts in a state ends, by the branch of the loop body that is
  taken, together with the world at that moment (before the sleep that follows).
\<close>

definition iteration_ending :: "env \<Rightarrow> loop_state \<times> world \<Rightarrow> ending" where
  "iteration_ending env s =
     (case s of (ls, w) \<Rightarrow>
        if probe_raises env (iteration ls + 1) then ProbeRaised w
        else
          (case get_public_ip env 3 w of
             (public_ip, w1) \<Rightarrow>
               (case public_ip of
                  None \<Rightarrow> ProbeFailed w1
                | Some ip \<Rightarrow>
                    if ip = [] then ProbeFailed w1
                    else if Some ip = last_successful_ip ls then Skipped w1
                    else if publish_raises env (iteration ls + 1) then PublishRaised w1
                    else
                      (case post_to_redis env ip_key (redis_client ls) ip 3 w1 of
                         (True, w2) \<Rightarrow> Published w2
                       | (False, w2) \<Rightarrow> PublishFailed w2))))"

definition probed :: "env \<Rightarrow> loop_state \<times> world \<Rightarrow> string option" where
  \<comment> \<open>the address the probe of this iteration returns, if it returns one\<close>
  "probed env s =
     (case s of (ls, w) \<Rightarrow>
        if probe_raises env (iteration ls + 1) then None else fst (get_public_ip env 3 w))"

definition calm_env :: env where
  \<comment> \<open>a store at host \<open>redis\<close> that answers every call, a lookup service that answers every request\<close>
  "calm_env =
     \<lparr>REDIS_HOST = Some ''redis'', REDIS_PORT = None, int_max_str_digits = 4300,
      redis_out = (\<lambda>n. Ok),
      http_out = (\<lambda>n. Response 200 ''203.0.113.7''),
      probe_raises = (\<lambda>n. False), publish_raises = (\<lambda>n. False)\<rparr>"

definition hostless_env :: env where
  \<comment> \<open>\<^verbatim>\<open>REDIS_HOST\<close> is not set\<close>
  "hostless_env = calm_env\<lparr>REDIS_HOST := None\<rparr>"

definition refused_env :: env where
  \<comment> \<open>every lookup request fails with a connection error\<close>
  "refused_env = calm_env\<lparr>http_out := (\<lambda>n. RequestException)\<rparr>"

definition raising_env :: env where
  \<comment> \<open>an exception escapes from the probe in every iteration\<close>
  "raising_env = calm_env\<lparr>probe_raises := (\<lambda>n. True)\<rparr>"

fun requests :: "event list \<Rightarrow> string list" where
  \<comment> \<open>the services that were asked, in the order of the requests\<close>
  "requests [] = []"
| "requests (HttpGet service r # tr) = service # requests tr"
| "requests (e # tr) = requests tr"

fun is_answer :: "event \<Rightarrow> bool" where
  \<comment> \<open>a request that was answered with status 200 and a text that passes the address check\<close>
  "is_answer (HttpGet service (Response status_code body)) =
     (status_code = 200 \<and> valid_ip (strip body))"
| "is_answer e = False"

definition probe_trace :: "string \<Rightarrow> nat \<Rightarrow> string option \<Rightarrow> event list \<Rightarrow> bool" where
  \<comment> \<open>the events of at most \<open>n\<close> attempts at one service, and the result they justify\<close>
  "probe_trace s n r tr =
     ((\<exists>k\<le>n. requests tr = replicate k s) \<and>
      (case r of
         None \<Rightarrow> (\<forall>e\<in>set tr. \<not> is_answer e)
       | Some ip \<Rightarrow>
           valid_ip ip \<and>
           (\<exists>tr0 body. tr = tr0 @ [HttpGet s (Response 200 body)] \<and> strip body = ip \<and>
              (\<forall>e\<in>set tr0. \<not> is_answer e))))"

fun is_check :: "event \<Rightarrow> bool" where
  \<comment> \<open>a ping, of the cached client or of a new one\<close>
  "is_check (Ping h r) = True"
| "is_check (Connect h host port r) = True"
| "is_check e = False"

fun alive :: "nat \<Rightarrow> event \<Rightarrow> bool" where
  \<comment> \<open>the event is a ping of handle \<open>h\<close> that the store answered\<close>
  "alive h (Ping h' r) = (h' = h \<and> r = Ok)"
| "alive h (Connect h' host port r) = (h' = h \<and> r = Ok)"
| "alive h e = False"

fun set_outcomes :: "event list \<Rightarrow> outcome list" where
  \<comment> \<open>the outcomes of the writes, in the order of the writes\<close>
  "set_outcomes [] = []"
| "set_outcomes (SetKey h k v r # tr) = r # set_outcomes tr"
| "set_outcomes (e # tr) = set_outcomes tr"

definition reconnection :: "nat option \<Rightarrow> event list \<Rightarrow> bool" where
  \<comment> \<open>the events of one call of \<open>get_redis_client\<close> and the result they justify\<close>
  "reconnection c g =
     ((\<forall>e\<in>set g. is_check e) \<and>
      (case c of
         Some h \<Rightarrow> g \<noteq> [] \<and> alive h (last g)
       | None \<Rightarrow> (\<forall>e\<in>set g. \<forall>h. \<not> alive h e)))"

fun shape :: "nat \<Rightarrow> bool \<Rightarrow> nat \<Rightarrow> event option \<Rightarrow> event list \<Rightarrow> bool" where
  \<comment> \<open>reads the events of a publish with \<open>m\<close> attempts from left to right: the result, the
      number of writes seen so far, the previous event, the events that are left\<close>
  "shape m ok j prev [] = (ok \<longrightarrow> (\<exists>h k v. prev = Some (SetKey h k v Ok)))"
| "shape m ok j prev (SetKey h k v r # tr) =
     ((case prev of None \<Rightarrow> True | Some e \<Rightarrow> alive h e) \<and>
      (r \<noteq> ConnectionError \<longrightarrow> tr = [] \<and> ok = (r = Ok)) \<and>
      (r = ConnectionError \<longrightarrow>
         (if Suc j < m then dropWhile is_check tr \<noteq> [] else tr = [] \<and> \<not> ok)) \<and>
      shape m ok (Suc j) (Some (SetKey h k v r)) tr)"
| "shape m ok j prev (Sleep n # tr) =
     (tr = [] \<and> \<not> ok \<and> (case prev of None \<Rightarrow> False | Some e \<Rightarrow> \<forall>h. \<not> alive h e) \<and>
      0 < j \<and> n = 2 ^ (j - 1))"
| "shape m ok j prev (e # tr) = (is_check e \<and> shape m ok j (Some e) tr)"

definition connected_world :: world where
  \<comment> \<open>the world after a first successful connection: handle 0 is cached\<close>
  "connected_world = \<lparr>redis_client_global = Some 0, trace = [Connect 0 ''redis'' 6379 Ok]\<rparr>"

definition stale_env :: env where
  \<comment> \<open>the calls at positions 1 and 2 of the trace fail: the cached handle has gone stale\<close>
  "stale_env =
     calm_env\<lparr>redis_out := (\<lambda>n. if n = 1 \<or> n = 2 then ConnectionError else Ok)\<rparr>"

definition down_env :: env where
  \<comment> \<open>the store refuses every call\<close>
  "down_env = calm_env\<lparr>redis_out := (\<lambda>n. ConnectionError)\<rparr>"

definition relapse_env :: env where
  \<comment> \<open>the handle of the start is dead from position 2 on: the writes over it at positions 2
      and 8 and its ping at position 3 fail, every other call is answered; the address
      changes after the first iteration\<close>
  "relapse_env =
     calm_env\<lparr>redis_out := (\<lambda>n. if n = 2 \<or> n = 3 \<or> n = 8 then ConnectionError else Ok),
              http_out := (\<lambda>n. Response 200 (if n < 7 then ''203.0.113.7'' else ''198.51.100.9''))\<rparr>"

definition reconnected_world :: world where
  \<comment> \<open>the world after the first iteration under \<open>relapse_env\<close>: the cache holds the handle 4\<close>
  "reconnected_world =
     \<lparr>redis_client_global = Some 4,
      trace = [Connect 0 ''redis'' 6379 Ok,
               HttpGet ''https://api.ipify.org?format=text'' (Response 200 ''203.0.113.7''),
               SetKey 0 ''ip.control.publicIp'' ''203.0.113.7'' ConnectionError,
               Ping 0 ConnectionError, Connect 4 ''redis'' 6379 Ok,
               SetKey 4 ''ip.control.publicIp'' ''203.0.113.7'' Ok, Sleep 60]\<rparr>"

definition hung_env :: env where
  \<comment> \<open>the handle of the start is dead from position 2 on, and the write over it at position
      2 fails with an error that is not a connection error (\<^verbatim>\<open>redis.TimeoutError\<close>); a ping
      of it at position 3 would fail, every other call is answered\<close>
  "hung_env =
     calm_env\<lparr>redis_out :=
                (\<lambda>n. if n = 2 then OtherError else if n = 3 then ConnectionError else Ok)\<rparr>"

definition recovers :: "env \<Rightarrow> world \<Rightarrow> bool" where
  \<comment> \<open>the next call of the store fails with a connection error, and the store answers the
      reconnection that follows (the ping of the cached handle, or a fresh connect when
      that ping fails or nothing is cached) and the write after it\<close>
  "recovers env w =
     (redis_out env (now w) = ConnectionError \<and>
      (case redis_client_global w of
         None \<Rightarrow> redis_out env (now w + 1) = Ok \<and> redis_out env (now w + 2) = Ok
       | Some hc \<Rightarrow>
           if redis_out env (now w + 1) = Ok then redis_out env (now w + 2) = Ok
           else redis_out env (now w + 2) = Ok \<and> redis_out env (now w + 3) = Ok))"

fun is_store_call :: "event \<Rightarrow> bool" where
  "is_store_call (Ping h r) = True"
| "is_store_call (Connect h host port r) = True"
| "is_store_call (SetKey h k v r) = True"
| "is_store_call e = False"

definition writes :: "event list \<Rightarrow> nat" where
  \<comment> \<open>the number of writes the store accepted\<close>
  "writes tr = length (filter (\<lambda>r. r = Ok) (set_outcomes tr))"

fun same_address :: "env \<Rightarrow> string \<Rightarrow> nat \<Rightarrow> loop_state \<times> world \<Rightarrow> bool" where
  \<comment> \<open>the probe returns the address \<open>ip\<close> in each of the next \<open>n\<close> iterations\<close>
  "same_address env ip 0 s = True"
| "same_address env ip (Suc n) s = (probed env s = Some ip \<and> same_address env ip n (main_step env s))"

fun publish_attempted :: "ending \<Rightarrow> bool" where
  "publish_attempted (PublishRaised w) = True"
| "publish_attempted (Published w) = True"
| "publish_attempted (PublishFailed w) = True"
| "publish_attempted e = False"

definition slow_first_env :: env where
  \<comment> \<open>the first five positions of the trace time out, later requests are answered\<close>
  "slow_first_env =
     calm_env\<lparr>http_out := (\<lambda>n. if n < 5 then Timeout else Response 200 ''198.51.100.9'')\<rparr>"

definition garbled_env :: env where
  \<comment> \<open>every lookup request is answered with status 200 and a page that is not an address\<close>
  "garbled_env = calm_env\<lparr>http_out := (\<lambda>n. Response 200 ''<html>busy</html>'')\<rparr>"

section \<open>Basic facts about the trace and the frame of each operation\<close>

lemma trace_emit [simp]: "trace (emit e w) = trace w @ [e]"
  by (simp add: emit_def)

lemma cached_emit [simp]: "redis_client_global (emit e w) = redis_client_global w"
  by (simp add: emit_def)

lemma now_emit [simp]: "now (emit e w) = Suc (now w)"
  by (simp add: now_def)

lemma now_cached_update [simp]: "now (w\<lparr>redis_client_global := c\<rparr>) = now w"
  by (simp add: now_def)

lemma connect_redis_disabled: "store_disabled env \<Longrightarrow> connect_redis env w = (None, w)"
  by (auto simp: store_disabled_def connect_redis_def split: option.splits)

lemma get_redis_client_disabled:
  "store_disabled env \<Longrightarrow> redis_client_global w = None \<Longrightarrow> get_redis_client env w = (None, w)"
  by (simp add: get_redis_client_def connect_redis_disabled)

lemma post_to_redis_disabled:
  "store_disabled env \<Longrightarrow> redis_client_global w = None \<Longrightarrow>
   post_to_redis env key None val m w = (False, w)"
  by (simp add: post_to_redis_def get_redis_client_disabled)


lemma attempts_cached:
  "attempts env service m as w = (r, w') \<Longrightarrow> redis_client_global w' = redis_client_global w"
proof (induction as arbitrary: w r w')
  case Nil
  then show ?case by simp
next
  case (Cons a as)
  show ?case
  proof (cases "http_out env (now w)")
    case (Response st body)
    with Cons show ?thesis
      by (auto simp: Let_def split: if_splits)
  next
    case Timeout
    with Cons show ?thesis
      by (auto simp: Let_def split: if_splits)
  next
    case RequestException
    with Cons.prems show ?thesis by (auto simp: Let_def)
  next
    case OtherException
    with Cons.prems show ?thesis by (auto simp: Let_def)
  qed
qed

lemma services_loop_cached:
  "services_loop env m ss w = (r, w') \<Longrightarrow> redis_client_global w' = redis_client_global w"
proof (induction ss arbitrary: w)
  case Nil
  then show ?case by simp
next
  case (Cons s ss)
  obtain r1 w1 where a: "attempts env s m [0..<m] w = (r1, w1)"
    by (cases "attempts env s m [0..<m] w")
  from attempts_cached [OF a] Cons a show ?case
    by (cases r1) auto
qed

lemma get_public_ip_cached:
  "get_public_ip env m w = (r, w') \<Longrightarrow> redis_client_global w' = redis_client_global w"
  by (simp add: get_public_ip_def services_loop_cached)

lemma on_exception_disabled:
  assumes "store_disabled env" "redis_client_global w = None" "redis_client ls = None"
  shows "redis_client (fst (on_exception env (ls, w))) = None \<and>
         redis_client_global (snd (on_exception env (ls, w))) = None \<and>
         last_successful_ip (fst (on_exception env (ls, w))) = last_successful_ip ls"
  using assms by (simp add: on_exception_def Let_def get_redis_client_disabled)


lemma on_exception_backoff:
  "consecutive_errors ls + 1 < max_consecutive_errors \<Longrightarrow>
   on_exception env (ls, w) =
     (ls\<lparr>consecutive_errors := consecutive_errors ls + 1\<rparr>,
      emit (Sleep (min (2 ^ (consecutive_errors ls + 1)) 60)) w)"
  by (simp add: on_exception_def Let_def)

lemma on_exception_cooldown:
  "max_consecutive_errors \<le> consecutive_errors ls + 1 \<Longrightarrow>
   get_redis_client env (emit (Sleep 300) w) = (c, w') \<Longrightarrow>
   on_exception env (ls, w) = (ls\<lparr>consecutive_errors := 0, redis_client := c\<rparr>, w')"
  by (simp add: on_exception_def Let_def)

lemma main_step_probe_raises:
  "probe_raises env (iteration ls + 1) \<Longrightarrow>
   main_step env (ls, w) = on_exception env (ls\<lparr>iteration := iteration ls + 1\<rparr>, w)"
  by (simp add: main_step_def Let_def)

lemma main_step_probe_failed:
  "\<not> probe_raises env (iteration ls + 1) \<Longrightarrow> get_public_ip env 3 w = (r, w1) \<Longrightarrow>
   r = None \<or> r = Some [] \<Longrightarrow>
   main_step env (ls, w) =
     (ls\<lparr>iteration := iteration ls + 1, consecutive_errors := consecutive_errors ls + 1\<rparr>,
      emit (Sleep sleep_interval) w1)"
  by (auto simp add: main_step_def Let_def)

lemma main_step_skipped:
  "\<not> probe_raises env (iteration ls + 1) \<Longrightarrow> get_public_ip env 3 w = (Some ip, w1) \<Longrightarrow>
   ip \<noteq> [] \<Longrightarrow> last_successful_ip ls = Some ip \<Longrightarrow>
   main_step env (ls, w) =
     (ls\<lparr>iteration := iteration ls + 1, consecutive_errors := 0\<rparr>,
      emit (Sleep sleep_interval) w1)"
  by (simp add: main_step_def Let_def)

lemma main_step_publish_raises:
  "\<not> probe_raises env (iteration ls + 1) \<Longrightarrow> get_public_ip env 3 w = (Some ip, w1) \<Longrightarrow>
   ip \<noteq> [] \<Longrightarrow> last_successful_ip ls \<noteq> Some ip \<Longrightarrow>
   publish_raises env (iteration ls + 1) \<Longrightarrow>
   main_step env (ls, w) = on_exception env (ls\<lparr>iteration := iteration ls + 1\<rparr>, w1)"
  by (auto simp add: main_step_def Let_def)

lemma main_step_published:
  "\<not> probe_raises env (iteration ls + 1) \<Longrightarrow> get_public_ip env 3 w = (Some ip, w1) \<Longrightarrow>
   ip \<noteq> [] \<Longrightarrow> last_successful_ip ls \<noteq> Some ip \<Longrightarrow>
   \<not> publish_raises env (iteration ls + 1) \<Longrightarrow>
   post_to_redis env ip_key (redis_client ls) ip 3 w1 = (True, w2) \<Longrightarrow>
   main_step env (ls, w) =
     (ls\<lparr>iteration := iteration ls + 1, last_successful_ip := Some ip, consecutive_errors := 0\<rparr>,
      emit (Sleep sleep_interval) w2)"
  by (auto simp add: main_step_def Let_def)

lemma main_step_publish_failed:
  "\<not> probe_raises env (iteration ls + 1) \<Longrightarrow> get_public_ip env 3 w = (Some ip, w1) \<Longrightarrow>
   ip \<noteq> [] \<Longrightarrow> last_successful_ip ls \<noteq> Some ip \<Longrightarrow>
   \<not> publish_raises env (iteration ls + 1) \<Longrightarrow>
   post_to_redis env ip_key (redis_client ls) ip 3 w1 = (False, w2) \<Longrightarrow>
   main_step env (ls, w) =
     (ls\<lparr>iteration := iteration ls + 1, consecutive_errors := consecutive_errors ls + 1\<rparr>,
      emit (Sleep sleep_interval) w2)"
  by (auto simp add: main_step_def Let_def)


lemma main_step_disabled:
  assumes d: "store_disabled env" and s: "never_connected (ls, w)"
  shows "never_connected (main_step env (ls, w))"
proof -
  let ?ls = "ls\<lparr>iteration := iteration ls + 1\<rparr>"
  have s': "redis_client_global w = None" "redis_client ls = None" "last_successful_ip ls = None"
    using s by (simp_all add: never_connected_def)
  show ?thesis
  proof (cases "probe_raises env (iteration ls + 1)")
    case True
    then show ?thesis
      using on_exception_disabled [OF d s'(1), of ?ls] s'
      by (simp add: main_step_probe_raises never_connected_def)
  next
    case False
    obtain r w1 where p: "get_public_ip env 3 w = (r, w1)"
      by (cases "get_public_ip env 3 w")
    have c1: "redis_client_global w1 = None"
      using get_public_ip_cached [OF p] s' by simp
    show ?thesis
    proof (cases "r = None \<or> r = Some []")
      case True
      then show ?thesis
        using main_step_probe_failed [OF False p] s' c1
        by (simp add: never_connected_def)
    next
      case nf: False
      then obtain ip where r: "r = Some ip" and ip: "ip \<noteq> []"
        by (cases r) auto
      have l: "last_successful_ip ls \<noteq> Some ip"
        using s' by simp
      show ?thesis
      proof (cases "publish_raises env (iteration ls + 1)")
        case True
        then show ?thesis
          using main_step_publish_raises [OF False p [unfolded r] ip l]
            on_exception_disabled [OF d c1, of ?ls] s'
          by (simp add: never_connected_def)
      next
        case np: False
        have "post_to_redis env ip_key (redis_client ls) ip 3 w1 = (False, w1)"
          using post_to_redis_disabled [OF d c1] s' by simp
        then show ?thesis
          using main_step_publish_failed [OF False p [unfolded r] ip l np] s' c1
          by (simp add: never_connected_def)
      qed
    qed
  qed
qed

lemma main_loop_disabled:
  "store_disabled env \<Longrightarrow> never_connected s \<Longrightarrow> never_connected (main_loop env n s)"
proof (induction n arbitrary: s)
  case 0
  then show ?case by simp
next
  case (Suc n)
  obtain ls w where s: "s = (ls, w)" by (cases s)
  show ?case
    using Suc main_step_disabled [of env ls w] by (simp add: s)
qed

lemma main_disabled: "store_disabled env \<Longrightarrow> never_connected (main env n)"
proof -
  assume d: "store_disabled env"
  have "never_connected (main_init env initial_world)"
    using get_redis_client_disabled [OF d, of initial_world]
    by (simp add: main_init_def never_connected_def initial_world_def)
  then show ?thesis
    unfolding main_def by (rule main_loop_disabled [OF d])
qed

lemma ending_cases [case_names ProbeRaised ProbeFailed Skipped PublishRaised Published PublishFailed]:
  obtains
    "probe_raises env (iteration ls + 1)"
    "iteration_ending env (ls, w) = ProbeRaised w"
    "probed env (ls, w) = None"
  | r w1 where
    "\<not> probe_raises env (iteration ls + 1)" "get_public_ip env 3 w = (r, w1)"
    "r = None \<or> r = Some []" "iteration_ending env (ls, w) = ProbeFailed w1"
    "probed env (ls, w) = r"
  | ip w1 where
    "\<not> probe_raises env (iteration ls + 1)" "get_public_ip env 3 w = (Some ip, w1)"
    "ip \<noteq> []" "last_successful_ip ls = Some ip" "iteration_ending env (ls, w) = Skipped w1"
    "probed env (ls, w) = Some ip"
  | ip w1 where
    "\<not> probe_raises env (iteration ls + 1)" "get_public_ip env 3 w = (Some ip, w1)"
    "ip \<noteq> []" "last_successful_ip ls \<noteq> Some ip" "publish_raises env (iteration ls + 1)"
    "iteration_ending env (ls, w) = PublishRaised w1"
    "probed env (ls, w) = Some ip"
  | ip w1 w2 where
    "\<not> probe_raises env (iteration ls + 1)" "get_public_ip env 3 w = (Some ip, w1)"
    "ip \<noteq> []" "last_successful_ip ls \<noteq> Some ip" "\<not> publish_raises env (iteration ls + 1)"
    "post_to_redis env ip_key (redis_client ls) ip 3 w1 = (True, w2)"
    "iteration_ending env (ls, w) = Published w2"
    "probed env (ls, w) = Some ip"
  | ip w1 w2 where
    "\<not> probe_raises env (iteration ls + 1)" "get_public_ip env 3 w = (Some ip, w1)"
    "ip \<noteq> []" "last_successful_ip ls \<noteq> Some ip" "\<not> publish_raises env (iteration ls + 1)"
    "post_to_redis env ip_key (redis_client ls) ip 3 w1 = (False, w2)"
    "iteration_ending env (ls, w) = PublishFailed w2"
    "probed env (ls, w) = Some ip"
proof (cases "probe_raises env (iteration ls + 1)")
  case True
  then show ?thesis
    using that(1) by (simp add: iteration_ending_def probed_def)
next
  case np: False
  obtain r w1 where p: "get_public_ip env 3 w = (r, w1)"
    by (cases "get_public_ip env 3 w")
  show ?thesis
  proof (cases "r = None \<or> r = Some []")
    case True
    then show ?thesis
      using that(2) [OF np p] np p by (auto simp add: iteration_ending_def probed_def)
  next
    case False
    then obtain ip where r: "r = Some ip" and ip: "ip \<noteq> []"
      by (cases r) auto
    note p' = p [unfolded r]
    show ?thesis
    proof (cases "last_successful_ip ls = Some ip")
      case True
      then show ?thesis
        using that(3) [OF np p' ip] np p' ip by (simp add: iteration_ending_def probed_def)
    next
      case l: False
      show ?thesis
      proof (cases "publish_raises env (iteration ls + 1)")
        case True
        then show ?thesis
          using that(4) [OF np p' ip l] np p' ip l
          by (auto simp add: iteration_ending_def probed_def)
      next
        case nr: False
        obtain ok w2 where q: "post_to_redis env ip_key (redis_client ls) ip 3 w1 = (ok, w2)"
          by (cases "post_to_redis env ip_key (redis_client ls) ip 3 w1")
        show ?thesis
        proof (cases ok)
          case True
          then show ?thesis
            using that(5) [OF np p' ip l nr] np p' ip l nr q
            by (auto simp add: iteration_ending_def probed_def)
        next
          case False
          then show ?thesis
            using that(6) [OF np p' ip l nr] np p' ip l nr q
            by (auto simp add: iteration_ending_def probed_def)
        qed
      qed
    qed
  qed
qed


lemma upt_3: "[0..<3] = [0, 1, 2]"
  by (simp add: upt_rec)

lemma get_public_ip_first_answer:
  "http_out env (now w) = Response 200 body \<Longrightarrow> valid_ip (strip body) \<Longrightarrow>
   get_public_ip env 3 w =
     (Some (strip body), emit (HttpGet ''https://api.ipify.org?format=text'' (Response 200 body)) w)"
  by (simp add: get_public_ip_def ip_services_def upt_3)

lemma get_public_ip_all_refused:
  "\<forall>n. http_out env n = RequestException \<Longrightarrow>
   get_public_ip env 3 w =
     (None, emit (HttpGet ''https://icanhazip.com'' RequestException)
              (emit (HttpGet ''https://ifconfig.me/ip'' RequestException)
                 (emit (HttpGet ''https://api.ipify.org?format=text'' RequestException) w)))"
  by (simp add: get_public_ip_def ip_services_def upt_3)


lemma main_loop_snoc: "main_loop env (Suc n) s = main_step env (main_loop env n s)"
  by (induction n arbitrary: s) simp_all

lemma refused_step:
  assumes "\<forall>n. \<not> probe_raises env n" "\<forall>n. http_out env n = RequestException"
  shows "consecutive_errors (fst (main_step env s)) = consecutive_errors (fst s) + 1 \<and>
         last (trace (snd (main_step env s))) = Sleep 60"
proof -
  obtain ls w where s: "s = (ls, w)" by (cases s)
  have np: "\<not> probe_raises env (iteration ls + 1)"
    using assms(1) by blast
  show ?thesis
    using main_step_probe_failed [OF np get_public_ip_all_refused [OF assms(2)]]
    by (simp add: s sleep_interval_def)
qed

lemma refused_run:
  assumes "\<forall>n. \<not> probe_raises env n" "\<forall>n. http_out env n = RequestException"
  shows "consecutive_errors (fst (main_loop env n s)) = consecutive_errors (fst s) + n"
proof (induction n)
  case 0
  show ?case by simp
next
  case (Suc n)
  show ?case
    using refused_step [OF assms, of "main_loop env n s"] Suc
    by (simp add: main_loop_snoc del: main_loop.simps)
qed

lemma refused_run_last:
  assumes "\<forall>n. \<not> probe_raises env n" "\<forall>n. http_out env n = RequestException"
  shows "last (trace (snd (main_loop env (Suc n) s))) = Sleep 60"
  using refused_step [OF assms, of "main_loop env n s"]
  by (simp only: main_loop_snoc)

lemma refused_env_facts:
  "\<forall>n. \<not> probe_raises refused_env n" "\<forall>n. http_out refused_env n = RequestException"
  by (simp_all add: refused_env_def calm_env_def)

lemma main_init_counter: "consecutive_errors (fst (main_init env w)) = 0"
  by (simp add: main_init_def split: prod.splits)

lemma raising_step:
  assumes "\<forall>n. probe_raises env n"
  shows "consecutive_errors (fst (main_step env s)) =
           (if consecutive_errors (fst s) + 1 < 10 then consecutive_errors (fst s) + 1 else 0)"
proof -
  obtain ls w where s: "s = (ls, w)" by (cases s)
  have p: "probe_raises env (iteration ls + 1)"
    using assms by blast
  show ?thesis
    by (simp add: s main_step_probe_raises [OF p] on_exception_def Let_def
        max_consecutive_errors_def split: prod.splits)
qed

lemma raising_run:
  assumes "\<forall>n. probe_raises env n"
  shows "consecutive_errors (fst s) + n < 10 \<Longrightarrow>
         consecutive_errors (fst (main_loop env n s)) = consecutive_errors (fst s) + n"
proof (induction n)
  case 0
  show ?case by simp
next
  case (Suc n)
  then show ?case
    using raising_step [OF assms, of "main_loop env n s"]
    by (simp add: main_loop_snoc del: main_loop.simps)
qed

lemma raising_env_facts: "\<forall>n. probe_raises raising_env n"
  by (simp add: raising_env_def calm_env_def)

lemma hostless_env_facts:
  "REDIS_HOST hostless_env = None" "store_disabled hostless_env"
  "\<forall>n. \<not> probe_raises hostless_env n" "\<forall>n. \<not> publish_raises hostless_env n"
  "\<forall>n. http_out hostless_env n = Response 200 ''203.0.113.7''"
  by (simp_all add: hostless_env_def calm_env_def store_disabled_def)

lemma valid_example_address: "strip ''203.0.113.7'' = ''203.0.113.7''" "valid_ip ''203.0.113.7''"
  by (simp_all add: valid_ip_def strip_def is_space_def)

lemma disabled_step:
  assumes d: "store_disabled env" and s: "never_connected s"
    and np: "\<forall>n. \<not> probe_raises env n" "\<forall>n. \<not> publish_raises env n"
    and h: "\<forall>n. http_out env n = Response 200 body" and v: "valid_ip (strip body)"
  shows "consecutive_errors (fst (main_step env s)) = consecutive_errors (fst s) + 1"
proof -
  obtain ls w where sw: "s = (ls, w)" by (cases s)
  have s': "redis_client_global w = None" "redis_client ls = None" "last_successful_ip ls = None"
    using s by (simp_all add: never_connected_def sw)
  let ?w1 = "emit (HttpGet ''https://api.ipify.org?format=text'' (Response 200 body)) w"
  have p: "get_public_ip env 3 w = (Some (strip body), ?w1)"
    using h v by (simp add: get_public_ip_first_answer)
  have ne: "strip body \<noteq> []"
    using v by (simp add: valid_ip_def)
  have l: "last_successful_ip ls \<noteq> Some (strip body)"
    using s' by simp
  have q: "post_to_redis env ip_key (redis_client ls) (strip body) 3 ?w1 = (False, ?w1)"
    using post_to_redis_disabled [OF d, of ?w1] s' by simp
  have a: "\<not> probe_raises env (iteration ls + 1)" and b: "\<not> publish_raises env (iteration ls + 1)"
    using np by blast+
  show ?thesis
    using main_step_publish_failed [OF a p ne l b q] by (simp add: sw)
qed

lemma disabled_run:
  assumes d: "store_disabled env" and s: "never_connected s"
    and np: "\<forall>n. \<not> probe_raises env n" "\<forall>n. \<not> publish_raises env n"
    and h: "\<forall>n. http_out env n = Response 200 body" and v: "valid_ip (strip body)"
  shows "consecutive_errors (fst (main_loop env n s)) = consecutive_errors (fst s) + n"
proof (induction n)
  case 0
  show ?case by simp
next
  case (Suc n)
  have "never_connected (main_loop env n s)"
    using d s by (rule main_loop_disabled)
  from disabled_step [OF d this np h v] Suc show ?case
    by (simp add: main_loop_snoc del: main_loop.simps)
qed

lemma main_init_disabled: "store_disabled env \<Longrightarrow> never_connected (main_init env initial_world)"
  by (simp add: main_init_def never_connected_def initial_world_def get_redis_client_disabled)

lemma requests_append [simp]: "requests (a @ b) = requests a @ requests b"
  by (induction a rule: requests.induct) simp_all

lemma attempts_Cons_answer:
  "http_out env (now w) = Response 200 body \<Longrightarrow> valid_ip (strip body) \<Longrightarrow>
   attempts env s m (a # rest) w = (Some (strip body), emit (HttpGet s (Response 200 body)) w)"
  by simp

lemma attempts_Cons_bad:
  "http_out env (now w) = Response st body \<Longrightarrow> \<not> (st = 200 \<and> valid_ip (strip body)) \<Longrightarrow>
   attempts env s m (a # rest) w = attempts env s m rest (emit (HttpGet s (Response st body)) w)"
  by (auto simp add: Let_def)

lemma attempts_Cons_timeout:
  "http_out env (now w) = Timeout \<Longrightarrow>
   attempts env s m (a # rest) w =
     attempts env s m rest
       (if int a < int m - 1 then emit (Sleep (2 ^ a)) (emit (HttpGet s Timeout) w)
        else emit (HttpGet s Timeout) w)"
  by simp

lemma attempts_Cons_error:
  "http_out env (now w) = RequestException \<or> http_out env (now w) = OtherException \<Longrightarrow>
   attempts env s m (a # rest) w = (None, emit (HttpGet s (http_out env (now w))) w)"
  by auto

lemma probe_trace_Nil: "probe_trace s n None []"
  by (simp add: probe_trace_def)

lemma probe_trace_answer:
  "valid_ip (strip body) \<Longrightarrow> probe_trace s (Suc n) (Some (strip body)) [HttpGet s (Response 200 body)]"
  by (simp add: probe_trace_def) (rule exI [of _ 1], simp)

lemma probe_trace_error:
  "r = RequestException \<or> r = OtherException \<Longrightarrow> probe_trace s (Suc n) None [HttpGet s r]"
  by (auto simp add: probe_trace_def intro: exI [of _ 1])

lemma probe_trace_step:
  assumes t: "probe_trace s n r tr" and e: "\<not> is_answer (HttpGet s x)"
    and p: "\<forall>e\<in>set pause. \<exists>d. e = Sleep d"
  shows "probe_trace s (Suc n) r (HttpGet s x # pause @ tr)"
proof -
  have rp: "requests pause = []"
    using p by (induction pause) auto
  have np: "\<forall>e\<in>set pause. \<not> is_answer e"
    using p by auto
  obtain k where k: "k \<le> n" "requests tr = replicate k s"
    using t by (auto simp add: probe_trace_def)
  have a: "\<exists>k\<le>Suc n. requests (HttpGet s x # pause @ tr) = replicate k s"
    using k rp by (intro exI [of _ "Suc k"]) simp
  show ?thesis
  proof (cases r)
    case None
    then show ?thesis
      using t a e np by (auto simp add: probe_trace_def)
  next
    case (Some ip)
    then obtain tr0 body where b: "valid_ip ip" "tr = tr0 @ [HttpGet s (Response 200 body)]"
      "strip body = ip" "\<forall>e\<in>set tr0. \<not> is_answer e"
      using t by (auto simp add: probe_trace_def)
    have "HttpGet s x # pause @ tr = (HttpGet s x # pause @ tr0) @ [HttpGet s (Response 200 body)]"
      using b by simp
    moreover have "\<forall>e\<in>set (HttpGet s x # pause @ tr0). \<not> is_answer e"
      using b e np by auto
    ultimately show ?thesis
      using a b Some unfolding probe_trace_def by (simp only: option.case) blast
  qed
qed

lemma attempts_trace:
  "\<exists>tr. snd (attempts env s m as w) = w\<lparr>trace := trace w @ tr\<rparr> \<and>
        probe_trace s (length as) (fst (attempts env s m as w)) tr"
proof (induction as arbitrary: w)
  case Nil
  show ?case
    by (rule exI [of _ "[]"]) (simp add: probe_trace_Nil)
next
  case (Cons a as)
  show ?case
  proof (cases "http_out env (now w)")
    case (Response st body)
    show ?thesis
    proof (cases "st = 200 \<and> valid_ip (strip body)")
      case True
      then show ?thesis
        using Response probe_trace_answer [of body s "length as"]
        by (intro exI [of _ "[HttpGet s (Response 200 body)]"]) (simp add: emit_def)
    next
      case False
      let ?w = "emit (HttpGet s (Response st body)) w"
      obtain tr where tr: "snd (attempts env s m as ?w) = ?w\<lparr>trace := trace ?w @ tr\<rparr>"
        "probe_trace s (length as) (fst (attempts env s m as ?w)) tr"
        using Cons [of ?w] by blast
      have "probe_trace s (Suc (length as)) (fst (attempts env s m as ?w))
              (HttpGet s (Response st body) # [] @ tr)"
        using False by (intro probe_trace_step [OF tr(2)]) auto
      then show ?thesis
        using tr(1) attempts_Cons_bad [OF Response False, of s m a as]
        by (intro exI [of _ "HttpGet s (Response st body) # tr"]) (simp add: emit_def)
    qed
  next
    case Timeout
    let ?w = "if int a < int m - 1 then emit (Sleep (2 ^ a)) (emit (HttpGet s Timeout) w)
        else emit (HttpGet s Timeout) w"
    let ?pause = "if int a < int m - 1 then [Sleep (2 ^ a)] else []"
    obtain tr where tr: "snd (attempts env s m as ?w) = ?w\<lparr>trace := trace ?w @ tr\<rparr>"
      "probe_trace s (length as) (fst (attempts env s m as ?w)) tr"
      using Cons [of ?w] by blast
    have "probe_trace s (Suc (length as)) (fst (attempts env s m as ?w))
            (HttpGet s Timeout # ?pause @ tr)"
      by (intro probe_trace_step [OF tr(2)]) auto
    then show ?thesis
      using tr(1) attempts_Cons_timeout [OF Timeout, of s m a as]
      by (intro exI [of _ "HttpGet s Timeout # ?pause @ tr"]) (simp add: emit_def)
  next
    case RequestException
    then show ?thesis
      using probe_trace_error [of RequestException s "length as"]
      by (intro exI [of _ "[HttpGet s RequestException]"]) (simp add: emit_def)
  next
    case OtherException
    then show ?thesis
      using probe_trace_error [of OtherException s "length as"]
      by (intro exI [of _ "[HttpGet s OtherException]"]) (simp add: emit_def)
  qed
qed

lemma services_loop_trace:
  "\<exists>tr. snd (services_loop env m ss w) = w\<lparr>trace := trace w @ tr\<rparr> \<and>
        subseq (requests tr) (concat (map (replicate m) ss)) \<and>
        (case fst (services_loop env m ss w) of
           None \<Rightarrow> (\<forall>e\<in>set tr. \<not> is_answer e)
         | Some ip \<Rightarrow>
             valid_ip ip \<and>
             (\<exists>tr0 s body. tr = tr0 @ [HttpGet s (Response 200 body)] \<and> strip body = ip \<and>
                (\<forall>e\<in>set tr0. \<not> is_answer e)))"
proof (induction ss arbitrary: w)
  case Nil
  show ?case
    by (rule exI [of _ "[]"]) simp
next
  case (Cons s ss)
  obtain r w1 where a: "attempts env s m [0..<m] w = (r, w1)"
    by (cases "attempts env s m [0..<m] w")
  obtain tr1 where tr1: "w1 = w\<lparr>trace := trace w @ tr1\<rparr>" "probe_trace s m r tr1"
    using attempts_trace [of env s m "[0..<m]" w] a by auto
  obtain k where k: "k \<le> m" "requests tr1 = replicate k s"
    using tr1(2) by (auto simp add: probe_trace_def)
  have sub1: "subseq (requests tr1) (replicate m s)"
  proof -
    have "replicate m s = replicate k s @ replicate (m - k) s"
      using k(1) by (simp add: replicate_add [symmetric])
    then show ?thesis
      using k(2) by (simp add: list_emb_prefix)
  qed
  show ?case
  proof (cases r)
    case (Some ip)
    then obtain tr0 body where b: "valid_ip ip" "tr1 = tr0 @ [HttpGet s (Response 200 body)]"
      "strip body = ip" "\<forall>e\<in>set tr0. \<not> is_answer e"
      using tr1(2) by (auto simp add: probe_trace_def)
    have "subseq (requests tr1) (replicate m s @ concat (map (replicate m) ss))"
      using sub1 by (rule subseq_rev_drop_many)
    then show ?thesis
      using a Some tr1(1) b
      by (intro exI [of _ tr1]) auto
  next
    case None
    then have n1: "\<forall>e\<in>set tr1. \<not> is_answer e"
      using tr1(2) by (simp add: probe_trace_def)
    obtain tr2 where tr2: "snd (services_loop env m ss w1) = w1\<lparr>trace := trace w1 @ tr2\<rparr>"
      "subseq (requests tr2) (concat (map (replicate m) ss))"
      "(case fst (services_loop env m ss w1) of
           None \<Rightarrow> (\<forall>e\<in>set tr2. \<not> is_answer e)
         | Some ip \<Rightarrow>
             valid_ip ip \<and>
             (\<exists>tr0 s body. tr2 = tr0 @ [HttpGet s (Response 200 body)] \<and> strip body = ip \<and>
                (\<forall>e\<in>set tr0. \<not> is_answer e)))"
      using Cons [of w1] by blast
    have e: "services_loop env m (s # ss) w = services_loop env m ss w1"
      using a None by simp
    have sub: "subseq (requests (tr1 @ tr2)) (concat (map (replicate m) (s # ss)))"
      using sub1 tr2(2) by (simp add: list_emb_append_mono)
    have w: "snd (services_loop env m (s # ss) w) = w\<lparr>trace := trace w @ tr1 @ tr2\<rparr>"
      using e tr2(1) tr1(1) by simp
    have res: "(case fst (services_loop env m (s # ss) w) of
           None \<Rightarrow> (\<forall>e\<in>set (tr1 @ tr2). \<not> is_answer e)
         | Some ip \<Rightarrow>
             valid_ip ip \<and>
             (\<exists>tr0 s body. tr1 @ tr2 = tr0 @ [HttpGet s (Response 200 body)] \<and> strip body = ip \<and>
                (\<forall>e\<in>set tr0. \<not> is_answer e)))"
    proof (cases "fst (services_loop env m ss w1)")
      case None
      then show ?thesis
        using tr2(3) n1 e by auto
    next
      case (Some ip)
      then obtain tr0 s' body where c: "valid_ip ip" "tr2 = tr0 @ [HttpGet s' (Response 200 body)]"
        "strip body = ip" "\<forall>e\<in>set tr0. \<not> is_answer e"
        using tr2(3) by auto
      have "tr1 @ tr2 = (tr1 @ tr0) @ [HttpGet s' (Response 200 body)]"
        using c by simp
      moreover have "\<forall>e\<in>set (tr1 @ tr0). \<not> is_answer e"
        using c n1 by auto
      ultimately show ?thesis
        using Some e c by (simp only: option.case) blast
    qed
    show ?thesis
      using w sub res by (intro exI [of _ "tr1 @ tr2"]) blast
  qed
qed

lemma get_public_ip_slow_first:
  assumes "http_out env (now w) = Timeout" "http_out env (now w + 2) = Timeout"
    "http_out env (now w + 4) = Timeout" "http_out env (now w + 5) = Response 200 body"
    "valid_ip (strip body)"
  shows "get_public_ip env 3 w =
     (Some (strip body),
      w\<lparr>trace := trace w @
        [HttpGet ''https://api.ipify.org?format=text'' Timeout, Sleep 1,
         HttpGet ''https://api.ipify.org?format=text'' Timeout, Sleep 2,
         HttpGet ''https://api.ipify.org?format=text'' Timeout,
         HttpGet ''https://ifconfig.me/ip'' (Response 200 body)]\<rparr>)"
proof -
  have n4: "now w + 4 = Suc (Suc (Suc (Suc (now w))))" and n5: "now w + 5 = Suc (Suc (Suc (Suc (Suc (now w)))))"
    by simp_all
  show ?thesis
    using assms unfolding n4 n5
    by (simp add: get_public_ip_def ip_services_def upt_3 emit_def now_def)
qed

lemma slow_first_env_facts:
  "http_out slow_first_env n = (if n < 5 then Timeout else Response 200 ''198.51.100.9'')"
  by (simp add: slow_first_env_def calm_env_def)

lemma valid_second_address: "strip ''198.51.100.9'' = ''198.51.100.9''" "valid_ip ''198.51.100.9''"
  by (simp_all add: valid_ip_def strip_def is_space_def)

lemma garbled_text: "strip ''<html>busy</html>'' = ''<html>busy</html>''"
  "\<not> valid_ip ''<html>busy</html>''"
  by (simp_all add: valid_ip_def strip_def is_space_def)

lemma garbled_env_facts: "http_out garbled_env n = Response 200 ''<html>busy</html>''"
  by (simp add: garbled_env_def calm_env_def)

lemma connect_redis_trace:
  "\<exists>g. snd (connect_redis env w) =
          w\<lparr>trace := trace w @ g,
            redis_client_global :=
              (case fst (connect_redis env w) of None \<Rightarrow> redis_client_global w | Some h \<Rightarrow> Some h)\<rparr> \<and>
        reconnection (fst (connect_redis env w)) g"
proof (cases "store_disabled env")
  case True
  then show ?thesis
    by (intro exI [of _ "[]"]) (simp add: connect_redis_disabled reconnection_def)
next
  case False
  then obtain host port where h: "REDIS_HOST env = Some host" "host \<noteq> []"
    "py_int (int_max_str_digits env) (case REDIS_PORT env of None \<Rightarrow> ''6379'' | Some p \<Rightarrow> p) = Some port"
    by (auto simp add: store_disabled_def)
  show ?thesis
    using h
    by (intro exI [of _ "[Connect (now w) host port (redis_out env (now w))]"])
       (simp add: connect_redis_def Let_def emit_def reconnection_def)
qed

lemma get_redis_client_trace:
  "\<exists>g. snd (get_redis_client env w) =
          w\<lparr>trace := trace w @ g, redis_client_global := fst (get_redis_client env w)\<rparr> \<and>
        reconnection (fst (get_redis_client env w)) g"
proof (cases "redis_client_global w")
  case None
  obtain g where g: "snd (connect_redis env w) =
          w\<lparr>trace := trace w @ g,
            redis_client_global :=
              (case fst (connect_redis env w) of None \<Rightarrow> redis_client_global w | Some h \<Rightarrow> Some h)\<rparr>"
    "reconnection (fst (connect_redis env w)) g"
    using connect_redis_trace [of env w] by blast
  show ?thesis
    using g None
    by (intro exI [of _ g]) (auto simp add: get_redis_client_def split: option.splits)
next
  case (Some h)
  show ?thesis
  proof (cases "redis_out env (now w) = Ok")
    case True
    then show ?thesis
      using Some
      by (intro exI [of _ "[Ping h Ok]"])
         (simp add: get_redis_client_def Let_def emit_def reconnection_def)
  next
    case False
    let ?w = "(emit (Ping h (redis_out env (now w))) w)\<lparr>redis_client_global := None\<rparr>"
    obtain g where g: "snd (connect_redis env ?w) =
          ?w\<lparr>trace := trace ?w @ g,
            redis_client_global :=
              (case fst (connect_redis env ?w) of None \<Rightarrow> redis_client_global ?w | Some h \<Rightarrow> Some h)\<rparr>"
      "reconnection (fst (connect_redis env ?w)) g"
      using connect_redis_trace [of env ?w] by blast
    have e: "get_redis_client env w = connect_redis env ?w"
      using Some False by (simp add: get_redis_client_def Let_def)
    have r: "reconnection (fst (connect_redis env ?w)) (Ping h (redis_out env (now w)) # g)"
      using g(2) False by (auto simp add: reconnection_def split: option.splits)
    show ?thesis
      using g(1) r unfolding e
      by (intro exI [of _ "Ping h (redis_out env (now w)) # g"])
         (auto simp add: emit_def split: option.splits)
  qed
qed

lemma set_outcomes_append [simp]: "set_outcomes (a @ b) = set_outcomes a @ set_outcomes b"
  by (induction a rule: set_outcomes.induct) simp_all

lemma set_outcomes_checks: "\<forall>e\<in>set g. is_check e \<Longrightarrow> set_outcomes g = []"
  by (induction g rule: set_outcomes.induct) simp_all

lemma shape_checks:
  "\<forall>e\<in>set g. is_check e \<Longrightarrow> shape m ok j prev (g @ tr) = shape m ok j (if g = [] then prev else Some (last g)) tr"
proof (induction g arbitrary: prev)
  case Nil
  show ?case by simp
next
  case (Cons e g)
  then have c: "is_check e" and g: "\<forall>e\<in>set g. is_check e"
    by simp_all
  have "shape m ok j prev ((e # g) @ tr) = shape m ok j (Some e) (g @ tr)"
    using c by (cases e) simp_all
  then show ?case
    using Cons.IH [OF g, of "Some e"] by simp
qed

lemma shape_write:
  "shape m ok j prev tr \<Longrightarrow> tr = a @ SetKey h k v r # b \<Longrightarrow> r \<noteq> ConnectionError \<Longrightarrow>
   b = [] \<and> ok = (r = Ok)"
proof (induction a arbitrary: j prev tr)
  case Nil
  then show ?case by simp
next
  case (Cons x a)
  then show ?case
    by (cases x) auto
qed

lemma shape_guard:
  "shape m ok j prev tr \<Longrightarrow> tr = a @ e # SetKey h k v r # b \<Longrightarrow> alive h e"
proof (induction a arbitrary: j prev tr)
  case Nil
  then show ?case by (cases e) auto
next
  case (Cons x a)
  then show ?case
    by (cases x) auto
qed

lemma shape_sleep:
  "shape m ok j prev tr \<Longrightarrow> tr = a @ Sleep n # b \<Longrightarrow>
   b = [] \<and> \<not> ok \<and> 0 < j + length (set_outcomes a) \<and>
   n = 2 ^ (j + length (set_outcomes a) - 1) \<and>
   (if a = [] then (\<exists>e. prev = Some e \<and> (\<forall>h. \<not> alive h e)) else (\<forall>h. \<not> alive h (last a)))"
proof (induction a arbitrary: j prev tr)
  case Nil
  then show ?case by (auto split: option.splits)
next
  case (Cons x a)
  show ?case
  proof (cases x)
    case (Sleep d)
    then show ?thesis using Cons.prems by auto
  next
    case (HttpGet s r)
    then have "shape m ok j (Some x) (a @ Sleep n # b)"
      using Cons.prems by simp
    from Cons.IH [OF this refl] HttpGet show ?thesis
      by (auto split: if_splits)
  next
    case (Ping h r)
    then have "shape m ok j (Some x) (a @ Sleep n # b)"
      using Cons.prems by simp
    from Cons.IH [OF this refl] Ping show ?thesis
      by (auto split: if_splits)
  next
    case (Connect h host port r)
    then have "shape m ok j (Some x) (a @ Sleep n # b)"
      using Cons.prems by simp
    from Cons.IH [OF this refl] Connect show ?thesis
      by (auto split: if_splits)
  next
    case (SetKey h k v r)
    then have "shape m ok (Suc j) (Some x) (a @ Sleep n # b)"
      using Cons.prems by auto
    from Cons.IH [OF this refl] SetKey show ?thesis
      by (auto split: if_splits)
  qed
qed

lemma shape_success:
  "shape m ok j prev tr \<Longrightarrow> ok \<Longrightarrow> tr \<noteq> [] \<Longrightarrow> \<exists>h k v. last tr = SetKey h k v Ok"
proof (induction tr arbitrary: j prev)
  case Nil
  then show ?case by simp
next
  case (Cons x tr)
  show ?case
  proof (cases "tr = []")
    case True
    then show ?thesis
      using Cons.prems by (cases x) auto
  next
    case False
    then have "shape m ok (case x of SetKey h k v r \<Rightarrow> Suc j | _ \<Rightarrow> j) (Some x) tr"
      using Cons.prems by (cases x) auto
    from Cons.IH [OF this Cons.prems(2) False] False show ?thesis
      by simp
  qed
qed

lemma set_attempts_None: "set_attempts env key val m as None w = (False, w)"
  by (cases as) simp_all

lemma set_attempts_final:
  "redis_out env (now w) = r \<Longrightarrow> r \<noteq> ConnectionError \<or> \<not> int a < int m - 1 \<Longrightarrow>
   set_attempts env key val m (a # rest) (Some h) w = (r = Ok, emit (SetKey h key val r) w)"
  by (cases r) (auto simp add: Let_def)

lemma set_attempts_retry:
  "redis_out env (now w) = ConnectionError \<Longrightarrow> int a < int m - 1 \<Longrightarrow>
   get_redis_client env (emit (SetKey h key val ConnectionError) w) = (c, w2) \<Longrightarrow>
   set_attempts env key val m (a # rest) (Some h) w =
     (case c of
        None \<Rightarrow> (False, emit (Sleep (2 ^ a)) w2)
      | Some h' \<Rightarrow> set_attempts env key val m rest (Some h') w2)"
  by (cases c) (simp_all add: Let_def set_attempts_None)


lemma dropWhile_checks: "\<forall>e\<in>set gs. is_check e \<Longrightarrow> dropWhile is_check (gs @ xs) = dropWhile is_check xs"
  by (induction gs) simp_all

lemma shape_single:
  "(case prev of None \<Rightarrow> True | Some e \<Rightarrow> alive h e) \<Longrightarrow> (r = ConnectionError \<Longrightarrow> \<not> Suc i < m) \<Longrightarrow>
   shape m (r = Ok) i prev [SetKey h k v r]"
  by (cases r) simp_all

lemma shape_retry_Cons:
  "(case prev of None \<Rightarrow> True | Some e \<Rightarrow> alive h e) \<Longrightarrow> Suc i < m \<Longrightarrow>
   dropWhile is_check tr \<noteq> [] \<Longrightarrow>
   shape m ok (Suc i) (Some (SetKey h k v ConnectionError)) tr \<Longrightarrow>
   shape m ok i prev (SetKey h k v ConnectionError # tr)"
  by simp

lemma set_attempts_shape:
  "atts = [i..<m] \<Longrightarrow>
   (case c of None \<Rightarrow> True | Some h \<Rightarrow> (case prev of None \<Rightarrow> True | Some e \<Rightarrow> alive h e)) \<Longrightarrow>
   \<exists>tr. trace (snd (set_attempts env key val m atts c w)) = trace w @ tr \<and>
        shape m (fst (set_attempts env key val m atts c w)) i prev tr \<and>
        length (set_outcomes tr) \<le> length atts \<and>
        (atts \<noteq> [] \<longrightarrow> (\<forall>h. c = Some h \<longrightarrow> (\<exists>r tr0. tr = SetKey h key val r # tr0)))"
proof (induction atts arbitrary: i c prev w)
  case Nil
  show ?case
    by (intro exI [of _ "[]"]) simp
next
  case (Cons a rest)
  from Cons.prems(1) [symmetric] have i: "a = i" "i < m" "rest = [Suc i..<m]"
    by (auto simp add: upt_eq_Cons_conv)
  show ?case
  proof (cases c)
    case None
    show ?thesis
      unfolding None set_attempts_None by (intro exI [of _ "[]"]) simp
  next
    case (Some h)
    have pv: "case prev of None \<Rightarrow> True | Some e \<Rightarrow> alive h e"
      using Cons.prems(2) Some by simp
    let ?r = "redis_out env (now w)"
    let ?e = "SetKey h key val ?r"
    show ?thesis
    proof (cases "?r \<noteq> ConnectionError \<or> \<not> int a < int m - 1")
      case True
      have e: "set_attempts env key val m (a # rest) (Some h) w = (?r = Ok, emit ?e w)"
        using set_attempts_final [OF refl True] .
      have nl: "?r = ConnectionError \<Longrightarrow> \<not> Suc i < m"
        using True i(1) by auto
      have sh: "shape m (?r = Ok) i prev [?e]"
        using pv nl by (rule shape_single)
      show ?thesis
        unfolding Some e
      proof (intro exI [of _ "[?e]"] conjI)
        show "trace (snd (?r = Ok, emit ?e w)) = trace w @ [?e]"
          by simp
        show "shape m (fst (?r = Ok, emit ?e w)) i prev [?e]"
          using sh by (simp only: fst_conv)
        show "length (set_outcomes [?e]) \<le> length (a # rest)"
          by simp
        show "a # rest \<noteq> [] \<longrightarrow> (\<forall>h'. Some h = Some h' \<longrightarrow> (\<exists>r tr0. [?e] = SetKey h' key val r # tr0))"
          by simp
      qed
    next
      case False
      then have ce: "?r = ConnectionError" and lt: "int a < int m - 1"
        by simp_all
      have lt': "Suc i < m"
        using lt i(1) by simp
      let ?w1 = "emit (SetKey h key val ConnectionError) w"
      obtain c' w2 where g: "get_redis_client env ?w1 = (c', w2)"
        by (cases "get_redis_client env ?w1")
      obtain gs where gs: "trace w2 = trace ?w1 @ gs" "reconnection c' gs"
        using get_redis_client_trace [of env ?w1] g by auto
      have ck: "\<forall>e\<in>set gs. is_check e"
        using gs(2) by (simp add: reconnection_def)
      note e = set_attempts_retry [OF ce lt g, of rest]
      show ?thesis
      proof (cases c')
        case None
        have na: "\<forall>e\<in>set gs. \<forall>h. \<not> alive h e"
          using gs(2) None by (simp add: reconnection_def)
        let ?tr = "SetKey h key val ConnectionError # gs @ [Sleep (2 ^ i)]"
        have sh0: "shape m False (Suc i) (Some (SetKey h key val ConnectionError)) (gs @ [Sleep (2 ^ i)])"
          using na by (simp add: shape_checks [OF ck])
        have dw: "dropWhile is_check (gs @ [Sleep (2 ^ i)]) \<noteq> []"
          by (simp add: dropWhile_checks [OF ck])
        have sh: "shape m False i prev ?tr"
          using pv lt' dw sh0 by (rule shape_retry_Cons)
        have res: "set_attempts env key val m (a # rest) (Some h) w = (False, emit (Sleep (2 ^ i)) w2)"
          using e None i(1) by simp
        show ?thesis
          unfolding Some res
        proof (intro exI [of _ ?tr] conjI)
          show "trace (snd (False, emit (Sleep (2 ^ i)) w2)) = trace w @ ?tr"
            using gs(1) by simp
          show "shape m (fst (False, emit (Sleep (2 ^ i)) w2)) i prev ?tr"
            using sh by (simp only: fst_conv)
          show "length (set_outcomes ?tr) \<le> length (a # rest)"
            by (simp add: set_outcomes_checks [OF ck])
          show "a # rest \<noteq> [] \<longrightarrow> (\<forall>h'. Some h = Some h' \<longrightarrow> (\<exists>r tr0. ?tr = SetKey h' key val r # tr0))"
            by simp
        qed
      next
        case (Some h')
        have al: "gs \<noteq> []" "alive h' (last gs)"
          using gs(2) Some by (simp_all add: reconnection_def)
        have pre: "case Some h' of None \<Rightarrow> True
            | Some h \<Rightarrow> (case Some (last gs) of None \<Rightarrow> True | Some e \<Rightarrow> alive h e)"
          using al by simp
        have rn: "rest \<noteq> []"
          using i(3) lt' by simp
        let ?rec = "set_attempts env key val m rest (Some h') w2"
        from Cons.IH [OF i(3) pre, of w2]
        obtain tr where T: "trace (snd ?rec) = trace w2 @ tr \<and>
          shape m (fst ?rec) (Suc i) (Some (last gs)) tr \<and>
          length (set_outcomes tr) \<le> length rest \<and>
          (rest \<noteq> [] \<longrightarrow> (\<forall>h. Some h' = Some h \<longrightarrow> (\<exists>r tr0. tr = SetKey h key val r # tr0)))" ..
        have tr: "trace (snd ?rec) = trace w2 @ tr"
          "shape m (fst ?rec) (Suc i) (Some (last gs)) tr"
          "length (set_outcomes tr) \<le> length rest"
          using T by (rule conjunct1, rule conjunct2 [THEN conjunct1],
              rule conjunct2 [THEN conjunct2, THEN conjunct1])
        have tr4: "\<exists>r tr0. tr = SetKey h' key val r # tr0"
          using T rn by simp
        let ?tr = "SetKey h key val ConnectionError # gs @ tr"
        have sh0: "shape m (fst ?rec) (Suc i) (Some (SetKey h key val ConnectionError)) (gs @ tr)"
          using tr(2) al by (simp add: shape_checks [OF ck])
        obtain r0 tr0 where t0: "tr = SetKey h' key val r0 # tr0"
          using tr4 by (elim exE)
        have dw: "dropWhile is_check (gs @ tr) \<noteq> []"
          by (simp add: dropWhile_checks [OF ck] t0)
        have sh: "shape m (fst ?rec) i prev ?tr"
          using pv lt' dw sh0 by (rule shape_retry_Cons)
        have res: "set_attempts env key val m (a # rest) (Some h) w = ?rec"
          using e Some by simp
        show ?thesis
          unfolding \<open>c = Some h\<close> res
        proof (intro exI [of _ ?tr] conjI)
          show "trace (snd ?rec) = trace w @ ?tr"
            using gs(1) tr(1) by simp
          show "shape m (fst ?rec) i prev ?tr"
            by (rule sh)
          show "length (set_outcomes ?tr) \<le> length (a # rest)"
            using tr(3) by (simp add: set_outcomes_checks [OF ck])
          show "a # rest \<noteq> [] \<longrightarrow> (\<forall>h''. Some h = Some h'' \<longrightarrow> (\<exists>r tr0. ?tr = SetKey h'' key val r # tr0))"
            by simp
        qed
      qed
    qed
  qed
qed


lemma set_attempts_shape_all:
  assumes "case c of None \<Rightarrow> True | Some h \<Rightarrow> (case prev of None \<Rightarrow> True | Some e \<Rightarrow> alive h e)"
  shows "\<exists>tr. trace (snd (set_attempts env key val m [0..<m] c w)) = trace w @ tr \<and>
        shape m (fst (set_attempts env key val m [0..<m] c w)) 0 prev tr \<and>
        length (set_outcomes tr) \<le> m"
proof -
  let ?rec = "set_attempts env key val m [0..<m] c w"
  from set_attempts_shape [OF refl assms, where env = env and key = key and val = val and w = w]
  obtain tr where T: "trace (snd ?rec) = trace w @ tr \<and>
        shape m (fst ?rec) 0 prev tr \<and>
        length (set_outcomes tr) \<le> length [0..<m] \<and>
        ([0..<m] \<noteq> [] \<longrightarrow> (\<forall>h. c = Some h \<longrightarrow> (\<exists>r tr0. tr = SetKey h key val r # tr0)))" ..
  have 1: "trace (snd ?rec) = trace w @ tr"
    using T by (rule conjunct1)
  have 2: "shape m (fst ?rec) 0 prev tr"
    using T by (rule conjunct2 [THEN conjunct1])
  have "length (set_outcomes tr) \<le> length [0..<m]"
    using T by (rule conjunct2 [THEN conjunct2, THEN conjunct1])
  then have 3: "length (set_outcomes tr) \<le> m"
    by simp
  show ?thesis
    by (intro exI [of _ tr] conjI) (rule 1, rule 2, rule 3)
qed

lemma post_to_redis_shape:
  "\<exists>tr. trace (snd (post_to_redis env key c val m w)) = trace w @ tr \<and>
        shape m (fst (post_to_redis env key c val m w)) 0 None tr \<and>
        length (set_outcomes tr) \<le> m"
proof (cases c)
  case (Some h)
  have e: "post_to_redis env key c val m w = set_attempts env key val m [0..<m] (Some h) w"
    by (simp add: post_to_redis_def Some)
  show ?thesis
    unfolding e by (rule set_attempts_shape_all) simp
next
  case None
  obtain c' w1 where g: "get_redis_client env w = (c', w1)"
    by (cases "get_redis_client env w")
  obtain gs where gs: "trace w1 = trace w @ gs" "reconnection c' gs"
    using get_redis_client_trace [of env w] g by auto
  have ck: "\<forall>e\<in>set gs. is_check e"
    using gs(2) by (simp add: reconnection_def)
  show ?thesis
  proof (cases c')
    case None
    have e: "post_to_redis env key c val m w = (False, w1)"
      using \<open>c = None\<close> g None by (simp add: post_to_redis_def)
    have sh: "shape m False 0 None gs"
      using shape_checks [OF ck, of m False 0 None "[]"] by simp
    show ?thesis
      unfolding e
    proof (intro exI [of _ gs] conjI)
      show "trace (snd (False, w1)) = trace w @ gs"
        using gs(1) by simp
      show "shape m (fst (False, w1)) 0 None gs"
        using sh by (simp only: fst_conv)
      show "length (set_outcomes gs) \<le> m"
        by (simp add: set_outcomes_checks [OF ck])
    qed
  next
    case (Some h)
    have al: "gs \<noteq> []" "alive h (last gs)"
      using gs(2) Some by (simp_all add: reconnection_def)
    let ?rec = "set_attempts env key val m [0..<m] (Some h) w1"
    have e: "post_to_redis env key c val m w = ?rec"
      using \<open>c = None\<close> g Some by (simp add: post_to_redis_def)
    have pre: "case Some h of None \<Rightarrow> True
        | Some h \<Rightarrow> (case Some (last gs) of None \<Rightarrow> True | Some e \<Rightarrow> alive h e)"
      using al by simp
    from set_attempts_shape_all [OF pre, where env = env and key = key and val = val and m = m and w = w1]
    obtain tr where T: "trace (snd ?rec) = trace w1 @ tr \<and>
        shape m (fst ?rec) 0 (Some (last gs)) tr \<and> length (set_outcomes tr) \<le> m" ..
    have sh: "shape m (fst ?rec) 0 None (gs @ tr)"
      using T al by (simp add: shape_checks [OF ck])
    show ?thesis
      unfolding e
    proof (intro exI [of _ "gs @ tr"] conjI)
      show "trace (snd ?rec) = trace w @ gs @ tr"
        using T gs(1) by simp
      show "shape m (fst ?rec) 0 None (gs @ tr)"
        by (rule sh)
      show "length (set_outcomes (gs @ tr)) \<le> m"
        using T by (simp add: set_outcomes_checks [OF ck])
    qed
  qed
qed

lemma default_port: "py_int limit ''6379'' = Some 6379"
  by (simp add: py_int_def strip_int_def is_int_space_def parse_unsigned_def is_digit_def
      too_many_digits_def Let_def)

lemma writes_append [simp]: "writes (a @ b) = writes a + writes b"
  by (simp add: writes_def)

lemma set_outcomes_filter: "set_outcomes (filter is_store_call tr) = set_outcomes tr"
  by (induction tr rule: set_outcomes.induct) simp_all

lemma writes_filter: "writes (filter is_store_call tr) = writes tr"
  by (simp add: writes_def set_outcomes_filter)

lemma attempts_store_calls:
  "attempts env service m atts w = (r, w') \<Longrightarrow>
   filter is_store_call (trace w') = filter is_store_call (trace w)"
proof (induction atts arbitrary: w r w')
  case Nil
  then show ?case by simp
next
  case (Cons a atts)
  show ?case
  proof (cases "http_out env (now w)")
    case (Response st body)
    with Cons show ?thesis
      by (auto simp: Let_def split: if_splits)
  next
    case Timeout
    with Cons show ?thesis
      by (auto simp: Let_def split: if_splits)
  next
    case RequestException
    with Cons.prems show ?thesis by (auto simp: Let_def)
  next
    case OtherException
    with Cons.prems show ?thesis by (auto simp: Let_def)
  qed
qed

lemma services_loop_store_calls:
  "services_loop env m ss w = (r, w') \<Longrightarrow>
   filter is_store_call (trace w') = filter is_store_call (trace w)"
proof (induction ss arbitrary: w)
  case Nil
  then show ?case by simp
next
  case (Cons s ss)
  obtain r1 w1 where a: "attempts env s m [0..<m] w = (r1, w1)"
    by (cases "attempts env s m [0..<m] w")
  from attempts_store_calls [OF a] Cons a show ?case
    by (cases r1) auto
qed

lemma get_public_ip_store_calls:
  "get_public_ip env m w = (r, w') \<Longrightarrow>
   filter is_store_call (trace w') = filter is_store_call (trace w)"
  by (simp add: get_public_ip_def services_loop_store_calls)

lemma shape_writes:
  "shape m ok j prev tr \<Longrightarrow> \<forall>h k v. prev \<noteq> Some (SetKey h k v Ok) \<Longrightarrow>
   writes tr = (if ok then 1 else 0)"
proof (induction tr arbitrary: j prev)
  case Nil
  then show ?case by (auto simp add: writes_def)
next
  case (Cons x tr)
  show ?case
  proof (cases x)
    case (SetKey h k v r)
    show ?thesis
    proof (cases "r = ConnectionError")
      case True
      then have "shape m ok (Suc j) (Some x) tr" and "\<forall>h k v. Some x \<noteq> Some (SetKey h k v Ok)"
        using Cons.prems SetKey by auto
      from Cons.IH [OF this] True SetKey show ?thesis
        by (simp add: writes_def)
    next
      case False
      then show ?thesis
        using Cons.prems SetKey by (auto simp add: writes_def)
    qed
  next
    case (Sleep n)
    then show ?thesis
      using Cons.prems by (auto simp add: writes_def)
  next
    case (HttpGet s r)
    then have "shape m ok j (Some x) tr" and "\<forall>h k v. Some x \<noteq> Some (SetKey h k v Ok)"
      using Cons.prems by simp_all
    from Cons.IH [OF this] HttpGet show ?thesis
      by (simp add: writes_def)
  next
    case (Ping h r)
    then have "shape m ok j (Some x) tr" and "\<forall>h k v. Some x \<noteq> Some (SetKey h k v Ok)"
      using Cons.prems by simp_all
    from Cons.IH [OF this] Ping show ?thesis
      by (simp add: writes_def)
  next
    case (Connect h host port r)
    then have "shape m ok j (Some x) tr" and "\<forall>h k v. Some x \<noteq> Some (SetKey h k v Ok)"
      using Cons.prems by simp_all
    from Cons.IH [OF this] Connect show ?thesis
      by (simp add: writes_def)
  qed
qed

lemma post_to_redis_writes:
  "post_to_redis env key c val m w = (ok, w') \<Longrightarrow>
   writes (trace w') = writes (trace w) + (if ok then 1 else 0)"
proof -
  assume p: "post_to_redis env key c val m w = (ok, w')"
  obtain tr where tr: "trace (snd (post_to_redis env key c val m w)) = trace w @ tr"
    "shape m (fst (post_to_redis env key c val m w)) 0 None tr"
    using post_to_redis_shape [of env key c val m w] by blast
  show ?thesis
    using tr(1) shape_writes [OF tr(2)] by (simp add: p)
qed

lemma skip_run:
  "last_successful_ip (fst s) = Some ip \<Longrightarrow> ip \<noteq> [] \<Longrightarrow> same_address env ip n s \<Longrightarrow>
   filter is_store_call (trace (snd (main_loop env n s))) = filter is_store_call (trace (snd s)) \<and>
   last_successful_ip (fst (main_loop env n s)) = Some ip"
proof (induction n arbitrary: s)
  case 0
  then show ?case by simp
next
  case (Suc n)
  obtain ls w where s: "s = (ls, w)" by (cases s)
  have pr: "probed env (ls, w) = Some ip" and rest: "same_address env ip n (main_step env (ls, w))"
    using Suc.prems(3) by (simp_all add: s)
  have l: "last_successful_ip ls = Some ip"
    using Suc.prems(1) by (simp add: s)
  obtain r w1 where g: "get_public_ip env 3 w = (r, w1)"
    by (cases "get_public_ip env 3 w")
  have np: "\<not> probe_raises env (iteration ls + 1)" and r: "r = Some ip"
    using pr g by (auto simp add: probed_def split: if_splits)
  note step = main_step_skipped [OF np g [unfolded r] Suc.prems(2) l]
  have a: "last_successful_ip (fst (main_step env (ls, w))) = Some ip"
    using l by (simp add: step)
  have b: "filter is_store_call (trace (snd (main_step env (ls, w)))) = filter is_store_call (trace w)"
    using get_public_ip_store_calls [OF g] by (simp add: step)
  from Suc.IH [OF a Suc.prems(2) rest] b show ?case
    by (simp add: s)
qed

lemma last_ip_by_ending:
  "last_successful_ip (fst (main_step env (ls, w))) =
     (case iteration_ending env (ls, w) of
        Published x \<Rightarrow> probed env (ls, w)
      | ProbeRaised x \<Rightarrow> last_successful_ip ls
      | ProbeFailed x \<Rightarrow> last_successful_ip ls
      | Skipped x \<Rightarrow> last_successful_ip ls
      | PublishRaised x \<Rightarrow> last_successful_ip ls
      | PublishFailed x \<Rightarrow> last_successful_ip ls)"
proof (cases rule: ending_cases [of env ls w])
  case ProbeRaised
  then show ?thesis
    by (simp add: main_step_probe_raises on_exception_def Let_def split: prod.splits)
next
  case (ProbeFailed r w1)
  then show ?thesis
    using main_step_probe_failed [OF ProbeFailed(1,2,3)] by simp
next
  case (Skipped ip w1)
  then show ?thesis
    using main_step_skipped [OF Skipped(1,2,3,4)] by simp
next
  case (PublishRaised ip w1)
  then show ?thesis
    using main_step_publish_raises [OF PublishRaised(1,2,3,4,5)]
    by (simp add: on_exception_def Let_def split: prod.splits)
next
  case (Published ip w1 w2)
  then show ?thesis
    using main_step_published [OF Published(1,2,3,4,5,6)] by simp
next
  case (PublishFailed ip w1 w2)
  then show ?thesis
    using main_step_publish_failed [OF PublishFailed(1,2,3,4,5,6)] by simp
qed

lemma retry_after_failed_publish:
  assumes f: "iteration_ending env (ls, w) = PublishFailed x"
      and same: "probed env (main_step env (ls, w)) = probed env (ls, w)"
  shows "last_successful_ip (fst (main_step env (ls, w))) = last_successful_ip ls \<and>
         publish_attempted (iteration_ending env (main_step env (ls, w)))"
proof -
  have keep: "last_successful_ip (fst (main_step env (ls, w))) = last_successful_ip ls"
    using last_ip_by_ending [of env ls w] f by simp
  obtain ip where ip: "probed env (ls, w) = Some ip" "ip \<noteq> []" "last_successful_ip ls \<noteq> Some ip"
    using f by (cases rule: ending_cases [of env ls w]) simp_all
  obtain ls' w' where s': "main_step env (ls, w) = (ls', w')"
    by (cases "main_step env (ls, w)")
  have l': "last_successful_ip ls' \<noteq> Some ip"
    using keep ip(3) by (simp add: s')
  have p': "probed env (ls', w') = Some ip"
    using same ip(1) by (simp add: s')
  have "publish_attempted (iteration_ending env (ls', w'))"
    using p' l' ip(2) by (cases rule: ending_cases [of env ls' w']) auto
  then show ?thesis
    using keep by (simp add: s')
qed

lemma answering_same_address:
  assumes "\<forall>n. \<not> probe_raises env n" "\<forall>n. http_out env n = Response 200 body"
    "valid_ip (strip body)"
  shows "same_address env (strip body) n s"
proof (induction n arbitrary: s)
  case 0
  show ?case by simp
next
  case (Suc n)
  obtain ls w where s: "s = (ls, w)" by (cases s)
  have "probed env (ls, w) = Some (strip body)"
    using assms by (simp add: probed_def get_public_ip_first_answer)
  then show ?case
    using Suc by (simp add: s)
qed

lemma calm_env_facts:
  "\<forall>n. \<not> probe_raises calm_env n" "\<forall>n. \<not> publish_raises calm_env n"
  "\<forall>n. http_out calm_env n = Response 200 ''203.0.113.7''" "\<forall>n. redis_out calm_env n = Ok"
  by (simp_all add: calm_env_def)

lemma down_env_facts:
  "\<forall>n. \<not> probe_raises down_env n" "\<forall>n. \<not> publish_raises down_env n"
  "\<forall>n. http_out down_env n = Response 200 ''203.0.113.7''"
  "\<forall>n. redis_out down_env n = ConnectionError"
  "REDIS_HOST down_env = Some ''redis''" "REDIS_PORT down_env = None"
  by (simp_all add: down_env_def calm_env_def)

lemma py_int_separator: "py_int limit (CHR 0x1F # ''6379'') = None"
  by (simp add: py_int_def strip_int_def is_int_space_def parse_unsigned_def is_digit_def Let_def)

lemma py_int_too_long:
  "strip_int s = c # cs \<Longrightarrow> c \<noteq> CHR ''-'' \<Longrightarrow> c \<noteq> CHR ''+'' \<Longrightarrow>
   too_many_digits limit (c # cs) \<Longrightarrow> py_int limit s = None"
  by (simp add: py_int_def Let_def split: option.splits)

lemma py_int_long: "py_int 4300 (replicate 5000 CHR ''1'') = None"
proof -
  have "(5000::nat) = Suc 4999"
    by simp
  then have r: "replicate 5000 CHR ''1'' = CHR ''1'' # replicate 4999 CHR ''1''"
    by (simp only: replicate_Suc)
  have s: "strip_int (replicate 5000 CHR ''1'') = replicate 5000 CHR ''1''"
    by (simp add: strip_int_def is_int_space_def dropWhile_replicate)
  have d: "too_many_digits 4300 (replicate 5000 CHR ''1'')"
    by (simp add: too_many_digits_def is_digit_def)
  have s': "strip_int (replicate 5000 CHR ''1'') = CHR ''1'' # replicate 4999 CHR ''1''"
    unfolding s by (rule r)
  have d': "too_many_digits 4300 (CHR ''1'' # replicate 4999 CHR ''1'')"
    using d unfolding r .
  show ?thesis
    by (rule py_int_too_long [OF s' _ _ d']) simp_all
qed

lemma shape_retry:
  "shape m ok j prev tr \<Longrightarrow> tr = a @ SetKey h k v ConnectionError # b \<Longrightarrow>
   (if Suc (j + length (set_outcomes a)) < m then dropWhile is_check b \<noteq> [] else b = [] \<and> \<not> ok)"
proof (induction a arbitrary: j prev tr)
  case Nil
  then show ?case by (auto split: if_splits)
next
  case (Cons x a)
  show ?case
  proof (cases x)
    case (Sleep d)
    then show ?thesis using Cons.prems by auto
  next
    case (HttpGet s r)
    then show ?thesis using Cons.prems by auto
  next
    case (Ping h' r)
    then have "shape m ok j (Some x) (a @ SetKey h k v ConnectionError # b)"
      using Cons.prems by simp
    from Cons.IH [OF this refl] Ping show ?thesis
      by simp
  next
    case (Connect h' host port r)
    then have "shape m ok j (Some x) (a @ SetKey h k v ConnectionError # b)"
      using Cons.prems by simp
    from Cons.IH [OF this refl] Connect show ?thesis
      by simp
  next
    case (SetKey h' k' v' r)
    then have "shape m ok (Suc j) (Some x) (a @ SetKey h k v ConnectionError # b)"
      using Cons.prems by auto
    from Cons.IH [OF this refl] SetKey show ?thesis
      by simp
  qed
qed

lemma shape_events:
  "shape m ok j prev tr \<Longrightarrow> e \<in> set tr \<Longrightarrow>
   is_check e \<or> (\<exists>h k v r. e = SetKey h k v r) \<or> (\<exists>n. e = Sleep n)"
proof (induction tr arbitrary: j prev)
  case Nil
  then show ?case by simp
next
  case (Cons x tr)
  show ?case
  proof (cases "e = x")
    case True
    then show ?thesis
      using Cons.prems(1) by (cases x) auto
  next
    case False
    then have m: "e \<in> set tr"
      using Cons.prems(2) by simp
    have "\<exists>j' . shape m ok j' (Some x) tr \<or> tr = []"
      using Cons.prems(1) by (cases x) auto
    then show ?thesis
      using Cons.IH m by auto
  qed
qed

lemma next_after_checks:
  assumes "dropWhile is_check b \<noteq> []"
  shows "\<exists>g x b'. b = g @ x # b' \<and> (\<forall>e\<in>set g. is_check e) \<and> \<not> is_check x"
proof -
  obtain x b' where d: "dropWhile is_check b = x # b'"
    using assms by (cases "dropWhile is_check b") auto
  have 1: "b = takeWhile is_check b @ x # b'"
    using takeWhile_dropWhile_id [of is_check b] d by simp
  have 2: "\<forall>e\<in>set (takeWhile is_check b). is_check e"
    by (auto dest: set_takeWhileD)
  have 3: "\<not> is_check x"
    using hd_dropWhile [OF assms] d by simp
  show ?thesis
    using 1 2 3 by blast
qed


lemma stale_env_facts:
  "REDIS_HOST stale_env = Some ''redis''" "REDIS_PORT stale_env = None"
  "redis_out stale_env n = (if n = 1 \<or> n = 2 then ConnectionError else Ok)"
  by (simp_all add: stale_env_def calm_env_def)

lemma get_redis_client_uncached:
  assumes cached: "redis_client_global w = None"
      and host: "REDIS_HOST env = Some host" "host \<noteq> []"
      and port: "py_int (int_max_str_digits env) (case REDIS_PORT env of None \<Rightarrow> ''6379'' | Some p \<Rightarrow> p) = Some port"
  shows "get_redis_client env w =
              (if redis_out env (now w) = Ok then Some (now w) else None,
               w\<lparr>trace := trace w @ [Connect (now w) host port (redis_out env (now w))],
                 redis_client_global := if redis_out env (now w) = Ok then Some (now w) else None\<rparr>)"
  using assms
  by (simp add: get_redis_client_def connect_redis_def Let_def emit_def now_def)

lemma get_redis_client_alive:
  "redis_client_global w = Some hc \<Longrightarrow> redis_out env (now w) = Ok \<Longrightarrow>
   get_redis_client env w = (Some hc, emit (Ping hc Ok) w)"
  by (simp add: get_redis_client_def Let_def)

lemma get_redis_client_dead:
  assumes cached: "redis_client_global w = Some hc"
      and host: "REDIS_HOST env = Some host" "host \<noteq> []"
      and port: "py_int (int_max_str_digits env) (case REDIS_PORT env of None \<Rightarrow> ''6379'' | Some p \<Rightarrow> p) = Some port"
      and out: "redis_out env (now w) \<noteq> Ok"
  shows "get_redis_client env w =
              (if redis_out env (now w + 1) = Ok then Some (now w + 1) else None,
               w\<lparr>trace := trace w @
                   [Ping hc (redis_out env (now w)),
                    Connect (now w + 1) host port (redis_out env (now w + 1))],
                 redis_client_global :=
                   if redis_out env (now w + 1) = Ok then Some (now w + 1) else None\<rparr>)"
  using assms
  by (simp add: get_redis_client_def connect_redis_def Let_def emit_def now_def)

lemma publish_over_dead_handles:
  assumes cached: "redis_client_global w = Some hc"
      and host: "REDIS_HOST env = Some host" "host \<noteq> []"
      and port: "py_int (int_max_str_digits env) (case REDIS_PORT env of None \<Rightarrow> ''6379'' | Some p \<Rightarrow> p) = Some port"
      and out: "redis_out env (now w) = ConnectionError" "redis_out env (now w + 1) \<noteq> Ok"
        "redis_out env (now w + 2) = Ok" "redis_out env (now w + 3) = Ok"
  shows "post_to_redis env key (Some h) val 3 w =
              (True,
               w\<lparr>trace := trace w @
                   [SetKey h key val ConnectionError, Ping hc (redis_out env (now w + 1)),
                    Connect (now w + 2) host port Ok, SetKey (now w + 2) key val Ok],
                 redis_client_global := Some (now w + 2)\<rparr>)"
proof -
  have n3: "now w + 3 = Suc (Suc (Suc (now w)))"
    by simp
  show ?thesis
    using assms unfolding n3
    by (simp add: post_to_redis_def upt_3 get_redis_client_def connect_redis_def Let_def
        emit_def now_def)
qed

lemma publish_over_cached_handle:
  assumes cached: "redis_client_global w = Some hc"
      and out: "redis_out env (now w) = ConnectionError" "redis_out env (now w + 1) = Ok"
        "redis_out env (now w + 2) = Ok"
  shows "post_to_redis env key (Some h) val 3 w =
              (True,
               w\<lparr>trace := trace w @
                   [SetKey h key val ConnectionError, Ping hc Ok, SetKey hc key val Ok]\<rparr>)"
  using assms
  by (simp add: post_to_redis_def upt_3 get_redis_client_def Let_def emit_def now_def)

lemma publish_over_dropped_handle:
  assumes cached: "redis_client_global w = None"
      and host: "REDIS_HOST env = Some host" "host \<noteq> []"
      and port: "py_int (int_max_str_digits env) (case REDIS_PORT env of None \<Rightarrow> ''6379'' | Some p \<Rightarrow> p) = Some port"
      and out: "redis_out env (now w) = ConnectionError" "redis_out env (now w + 1) = Ok"
        "redis_out env (now w + 2) = Ok"
  shows "post_to_redis env key (Some h) val 3 w =
              (True,
               w\<lparr>trace := trace w @
                   [SetKey h key val ConnectionError, Connect (now w + 1) host port Ok,
                    SetKey (now w + 1) key val Ok],
                 redis_client_global := Some (now w + 1)\<rparr>)"
  using assms
  by (simp add: post_to_redis_def upt_3 get_redis_client_def connect_redis_def Let_def
      emit_def now_def)

lemma publish_other_error:
  "redis_out env (now w) = OtherError \<Longrightarrow>
   post_to_redis env key (Some h) val 3 w = (False, emit (SetKey h key val OtherError) w)"
  by (simp add: post_to_redis_def upt_3 Let_def)

lemma publish_recovers:
  assumes host: "REDIS_HOST env = Some host" "host \<noteq> []"
      and port: "py_int (int_max_str_digits env) (case REDIS_PORT env of None \<Rightarrow> ''6379'' | Some p \<Rightarrow> p) = Some port"
      and r: "recovers env w"
  shows "\<exists>w'. post_to_redis env key (Some h) val 3 w = (True, w')"
proof (cases "redis_client_global w")
  case None
  then show ?thesis
    using publish_over_dropped_handle [OF None host port, of key h val] r
    by (simp add: recovers_def)
next
  case (Some hc)
  show ?thesis
  proof (cases "redis_out env (now w + 1) = Ok")
    case True
    then show ?thesis
      using publish_over_cached_handle [OF Some, of env key h val] r Some
      by (simp add: recovers_def)
  next
    case False
    then show ?thesis
      using publish_over_dead_handles [OF Some host port, of key h val] r Some
      by (simp add: recovers_def)
  qed
qed

lemma monitor_loop_first_sleep:
  "monitor_loop (Suc (s + d)) (Suc s) 0 0 = Some (Suc (s + d), 0)"
  by (simp add: monitor_loop.simps)

lemma relapse_env_facts:
  "REDIS_HOST relapse_env = Some ''redis''" "REDIS_PORT relapse_env = None"
  "redis_out relapse_env n = (if n = 2 \<or> n = 3 \<or> n = 8 then ConnectionError else Ok)"
  "http_out relapse_env n = Response 200 (if n < 7 then ''203.0.113.7'' else ''198.51.100.9'')"
  "\<not> probe_raises relapse_env n" "\<not> publish_raises relapse_env n"
  by (simp_all add: relapse_env_def calm_env_def)

lemma hung_env_facts:
  "REDIS_HOST hung_env = Some ''redis''" "REDIS_PORT hung_env = None"
  "redis_out hung_env n = (if n = 2 then OtherError else if n = 3 then ConnectionError else Ok)"
  "http_out hung_env n = Response 200 ''203.0.113.7''"
  "\<not> probe_raises hung_env n" "\<not> publish_raises hung_env n"
  by (simp_all add: hung_env_def calm_env_def)

section \<open>Claims about the configuration of the store\<close>

text \<open>
  C10. If \<^verbatim>\<open>REDIS_PORT\<close> is set to a string that \<^verbatim>\<open>int\<close> rejects, \<^verbatim>\<open>get_redis_client\<close>
  does not raise: the conversion error is caught inside the function and the result is no
  client, without any request to the store. A publish attempt that has no client then
  reports failure, again without any request. Both results are the ones obtained when
  the store host is unset. In a run of \<^verbatim>\<open>main\<close> that starts with this configuration no
  client is ever cached or held by the loop, whatever the number of iterations, so the
  first two statements apply to every later call.
\<close>
theorem invalid_port_yields_no_client:
  assumes port: "REDIS_PORT env = Some p" "py_int (int_max_str_digits env) p = None"
      and c: "redis_client_global w = None"
  shows "get_redis_client env w = (None, w) \<and>
         post_to_redis env key None val m w = (False, w) \<and>
         get_redis_client env w = get_redis_client (env\<lparr>REDIS_HOST := None\<rparr>) w \<and>
         post_to_redis env key None val m w = post_to_redis (env\<lparr>REDIS_HOST := None\<rparr>) key None val m w \<and>
         (\<forall>n. never_connected (main env n))"
proof -
  have d: "store_disabled env"
    using port by (simp add: store_disabled_def)
  have d': "store_disabled (env\<lparr>REDIS_HOST := None\<rparr>)"
    by (simp add: store_disabled_def)
  show ?thesis
    using get_redis_client_disabled [OF d c] get_redis_client_disabled [OF d' c]
      post_to_redis_disabled [OF d c] post_to_redis_disabled [OF d' c] main_disabled [OF d]
    by simp
qed

theorem invalid_port_yields_no_client_witness:
  "py_int 4300 ''80a'' = None \<and>
   get_redis_client (calm_env\<lparr>REDIS_PORT := Some ''80a''\<rparr>) initial_world = (None, initial_world) \<and>
   post_to_redis (calm_env\<lparr>REDIS_PORT := Some ''80a''\<rparr>) ip_key None ''203.0.113.7'' 3 initial_world
     = (False, initial_world) \<and>
   never_connected (main (calm_env\<lparr>REDIS_PORT := Some ''80a''\<rparr>) 5) \<and>
   py_int 4300 (CHR 0x1F # ''6379'') = None \<and>
   get_redis_client (calm_env\<lparr>REDIS_PORT := Some (CHR 0x1F # ''6379'')\<rparr>) initial_world
     = (None, initial_world) \<and>
   py_int 4300 (replicate 5000 CHR ''1'') = None \<and>
   get_redis_client (calm_env\<lparr>REDIS_PORT := Some (replicate 5000 CHR ''1'')\<rparr>) initial_world
     = (None, initial_world)"
proof -
  have l: "\<And>p. int_max_str_digits (calm_env\<lparr>REDIS_PORT := Some p\<rparr>) = 4300"
    by (simp add: calm_env_def)
  have h3: "redis_client_global initial_world = None"
    by (simp add: initial_world_def)
  have a1: "REDIS_PORT (calm_env\<lparr>REDIS_PORT := Some ''80a''\<rparr>) = Some ''80a''"
    by simp
  have a2: "py_int 4300 ''80a'' = None"
    by (simp add: py_int_def strip_int_def is_int_space_def parse_unsigned_def is_digit_def Let_def)
  have a2': "py_int (int_max_str_digits (calm_env\<lparr>REDIS_PORT := Some ''80a''\<rparr>)) ''80a'' = None"
    unfolding l by (rule a2)
  note a = invalid_port_yields_no_client [OF a1 a2' h3, of ip_key "''203.0.113.7''" 3]
  have b1: "REDIS_PORT (calm_env\<lparr>REDIS_PORT := Some (CHR 0x1F # ''6379'')\<rparr>)
      = Some (CHR 0x1F # ''6379'')"
    by simp
  have b2': "py_int (int_max_str_digits (calm_env\<lparr>REDIS_PORT := Some (CHR 0x1F # ''6379'')\<rparr>))
      (CHR 0x1F # ''6379'') = None"
    unfolding l by (rule py_int_separator)
  note b = invalid_port_yields_no_client [OF b1 b2' h3, of ip_key "''203.0.113.7''" 3]
  have c1: "REDIS_PORT (calm_env\<lparr>REDIS_PORT := Some (replicate 5000 CHR ''1'')\<rparr>)
      = Some (replicate 5000 CHR ''1'')"
    by simp
  have c2': "py_int (int_max_str_digits (calm_env\<lparr>REDIS_PORT := Some (replicate 5000 CHR ''1'')\<rparr>))
      (replicate 5000 CHR ''1'') = None"
    unfolding l by (rule py_int_long)
  note c = invalid_port_yields_no_client [OF c1 c2' h3, of ip_key "''203.0.113.7''" 3]
  have a': "get_redis_client (calm_env\<lparr>REDIS_PORT := Some ''80a''\<rparr>) initial_world = (None, initial_world)"
    "post_to_redis (calm_env\<lparr>REDIS_PORT := Some ''80a''\<rparr>) ip_key None ''203.0.113.7'' 3 initial_world
       = (False, initial_world)"
    "never_connected (main (calm_env\<lparr>REDIS_PORT := Some ''80a''\<rparr>) 5)"
    using a by blast+
  have b': "get_redis_client (calm_env\<lparr>REDIS_PORT := Some (CHR 0x1F # ''6379'')\<rparr>) initial_world
      = (None, initial_world)"
    using b by blast
  have c': "get_redis_client (calm_env\<lparr>REDIS_PORT := Some (replicate 5000 CHR ''1'')\<rparr>) initial_world
      = (None, initial_world)"
    using c by blast
  show ?thesis
    using a2 a' py_int_separator b' py_int_long c' by blast
qed

text \<open>
  C4, as the code has it. When \<^verbatim>\<open>REDIS_HOST\<close> is absent, a publish attempt reports
  failure without any request to the store, and the loop goes on. The caller receives
  \<^verbatim>\<open>False\<close>, the value it also receives when a configured store refuses the connection,
  so the iteration counts as a publish failure: the counter is incremented and the loop
  sleeps the normal 60 seconds. No client and no published address exist afterwards
  either, so the next iteration that probes an address attempts the publish again.
\<close>

theorem unconfigured_store_failure_is_counted:
  assumes host: "REDIS_HOST env = None"
      and s: "never_connected (ls, w)"
      and p: "probed env (ls, w) = Some ip" "ip \<noteq> []"
      and nr: "\<not> publish_raises env (iteration ls + 1)"
  shows "post_to_redis env ip_key (redis_client ls) ip 3 (snd (get_public_ip env 3 w))
           = (False, snd (get_public_ip env 3 w)) \<and>
         fst (post_to_redis (env\<lparr>REDIS_HOST := Some ''redis'', redis_out := (\<lambda>n. ConnectionError)\<rparr>)
                ip_key (redis_client ls) ip 3 (snd (get_public_ip env 3 w))) = False \<and>
         main_step env (ls, w) =
           (ls\<lparr>iteration := iteration ls + 1, consecutive_errors := consecutive_errors ls + 1\<rparr>,
            emit (Sleep 60) (snd (get_public_ip env 3 w))) \<and>
         never_connected (main_step env (ls, w))"
proof -
  have d: "store_disabled env"
    using host by (simp add: store_disabled_def)
  have s': "redis_client_global w = None" "redis_client ls = None" "last_successful_ip ls = None"
    using s by (simp_all add: never_connected_def)
  obtain r w1 where g: "get_public_ip env 3 w = (r, w1)"
    by (cases "get_public_ip env 3 w")
  have a: "\<not> probe_raises env (iteration ls + 1)" and r: "r = Some ip"
    using p(1) g by (auto simp add: probed_def split: if_splits)
  have c1: "redis_client_global w1 = None"
    using get_public_ip_cached [OF g] s' by simp
  have q: "post_to_redis env ip_key (redis_client ls) ip 3 w1 = (False, w1)"
    using post_to_redis_disabled [OF d c1] s' by simp
  have l: "last_successful_ip ls \<noteq> Some ip"
    using s' by simp
  have t: "fst (post_to_redis (env\<lparr>REDIS_HOST := Some ''redis'', redis_out := (\<lambda>n. ConnectionError)\<rparr>)
                ip_key (redis_client ls) ip 3 w1) = False"
    using c1 s'
    by (simp add: post_to_redis_def get_redis_client_def connect_redis_def Let_def
        split: option.splits)
  show ?thesis
    using main_step_publish_failed [OF a g [unfolded r] p(2) l nr q] q t
      main_step_disabled [OF d s]
    by (simp add: g sleep_interval_def)
qed

theorem unconfigured_store_failure_is_counted_witness:
  "REDIS_HOST hostless_env = None \<and>
   never_connected (main_init hostless_env initial_world) \<and>
   probed hostless_env (main_init hostless_env initial_world) = Some ''203.0.113.7'' \<and>
   \<not> publish_raises hostless_env 1 \<and>
   consecutive_errors (fst (main_step hostless_env (main_init hostless_env initial_world))) = 1 \<and>
   never_connected (main_step hostless_env (main_init hostless_env initial_world))"
proof -
  let ?ls = "\<lparr>iteration = 0, consecutive_errors = 0, last_successful_ip = None, redis_client = None\<rparr>"
  have i: "main_init hostless_env initial_world = (?ls, initial_world)"
    by (simp add: main_init_def get_redis_client_disabled hostless_env_facts(2) initial_world_def)
  have h1: "REDIS_HOST hostless_env = None"
    by (rule hostless_env_facts(1))
  have h2: "never_connected (?ls, initial_world)"
    using main_init_disabled [OF hostless_env_facts(2)] by (simp add: i)
  have g: "get_public_ip hostless_env 3 initial_world =
      (Some ''203.0.113.7'',
       emit (HttpGet ''https://api.ipify.org?format=text'' (Response 200 ''203.0.113.7'')) initial_world)"
    using get_public_ip_first_answer [of hostless_env initial_world "''203.0.113.7''"]
    by (simp add: hostless_env_facts(5) valid_example_address)
  have h3: "probed hostless_env (?ls, initial_world) = Some ''203.0.113.7''"
    by (simp add: probed_def hostless_env_facts(3) g)
  have h4: "''203.0.113.7'' \<noteq> []"
    by simp
  have h5: "\<not> publish_raises hostless_env (iteration ?ls + 1)"
    using hostless_env_facts(4) by blast
  note counted = unconfigured_store_failure_is_counted [OF h1 h2 h3 h4 h5]
  have c: "consecutive_errors (fst (main_step hostless_env (?ls, initial_world))) = 1"
    using counted by simp
  have n: "never_connected (main_step hostless_env (?ls, initial_world))"
    using counted by blast
  show ?thesis
    using c n h1 h2 h3 h5 by (simp add: i)
qed


text \<open>
  C4 as stated fails for the counter: with the host unset and a probe that answers every
  time, the counter is 1 after the first iteration and 10 after the tenth.
\<close>

theorem unconfigured_store_counter_counterexample:
  "REDIS_HOST hostless_env = None \<and>
   consecutive_errors (fst (main hostless_env 1)) = 1 \<and>
   consecutive_errors (fst (main hostless_env 10)) = 10"
proof -
  have v: "valid_ip (strip ''203.0.113.7'')"
    by (simp add: valid_example_address)
  have i: "never_connected (main_init hostless_env initial_world)"
    by (rule main_init_disabled [OF hostless_env_facts(2)])
  note run = disabled_run [OF hostless_env_facts(2) i hostless_env_facts(3,4,5) v]
  show ?thesis
    using run [of 1] run [of 10]
    by (simp add: main_def main_init_counter hostless_env_facts(1) del: main_loop.simps)
qed

section \<open>Claims about the poll loop\<close>

text \<open>
  C1, as the code has it. The bounded exponential backoff and the long cooldown belong to
  the \<^verbatim>\<open>except Exception\<close> clause alone. Let \<open>f\<close> be the counter after the increment.
  An iteration that ends in an exception sleeps \<open>min (2 ^ f) 60\<close> seconds when
  \<open>f < 10\<close>, and this is the only sleep after the exception (the schedule sleep is
  skipped); when \<open>f \<ge> 10\<close> it sleeps 300 seconds, asks for the store connection
  again and continues with the counter at 0. An iteration in which the probe returns no
  address, or the publish returns failure, increments the counter and sleeps the normal
  60 seconds, whatever the value of the counter; the threshold is not consulted there.
\<close>

theorem backoff_follows_exceptions_only:
  "main_step env (ls, w) =
     (let ls' = ls\<lparr>iteration := iteration ls + 1\<rparr>;
          f = consecutive_errors ls + 1;
          backoff = (\<lambda>wx.
            if f < max_consecutive_errors
            then (ls'\<lparr>consecutive_errors := f\<rparr>, emit (Sleep (min (2 ^ f) 60)) wx)
            else (case get_redis_client env (emit (Sleep 300) wx) of
                    (c, w') \<Rightarrow> (ls'\<lparr>consecutive_errors := 0, redis_client := c\<rparr>, w')))
      in case iteration_ending env (ls, w) of
           ProbeRaised wx \<Rightarrow> backoff wx
         | PublishRaised wx \<Rightarrow> backoff wx
         | ProbeFailed w1 \<Rightarrow> (ls'\<lparr>consecutive_errors := f\<rparr>, emit (Sleep 60) w1)
         | PublishFailed w2 \<Rightarrow> (ls'\<lparr>consecutive_errors := f\<rparr>, emit (Sleep 60) w2)
         | Skipped w1 \<Rightarrow> (ls'\<lparr>consecutive_errors := 0\<rparr>, emit (Sleep 60) w1)
         | Published w2 \<Rightarrow>
             (ls'\<lparr>last_successful_ip := probed env (ls, w), consecutive_errors := 0\<rparr>,
              emit (Sleep 60) w2))"
proof (cases rule: ending_cases [of env ls w])
  case ProbeRaised
  then show ?thesis
    by (simp add: main_step_probe_raises on_exception_def Let_def)
next
  case (ProbeFailed r w1)
  then show ?thesis
    using main_step_probe_failed [OF ProbeFailed(1,2,3)]
    by (simp add: sleep_interval_def Let_def)
next
  case (Skipped ip w1)
  then show ?thesis
    using main_step_skipped [OF Skipped(1,2,3,4)]
    by (simp add: sleep_interval_def Let_def)
next
  case (PublishRaised ip w1)
  then show ?thesis
    using main_step_publish_raises [OF PublishRaised(1,2,3,4,5)]
    by (simp add: on_exception_def Let_def)
next
  case (Published ip w1 w2)
  then show ?thesis
    using main_step_published [OF Published(1,2,3,4,5,6)]
    by (simp add: sleep_interval_def Let_def)
next
  case (PublishFailed ip w1 w2)
  then show ?thesis
    using main_step_publish_failed [OF PublishFailed(1,2,3,4,5,6)]
    by (simp add: sleep_interval_def Let_def)
qed


text \<open>
  C1 as stated fails for probe failures: when every lookup request is refused, the tenth
  consecutive probe failure leaves the counter at 10 and is followed by the 60 second
  schedule sleep, not by the cooldown and a reset.
\<close>

theorem probe_failure_backoff_counterexample:
  "fst (get_public_ip refused_env 3 (snd (main refused_env 9))) = None \<and>
   consecutive_errors (fst (main refused_env 9)) = 9 \<and>
   consecutive_errors (fst (main refused_env 10)) = 10 \<and>
   last (trace (snd (main refused_env 10))) = Sleep 60"
proof -
  have n10: "(10::nat) = Suc 9" by simp
  have a: "consecutive_errors (fst (main refused_env 9)) = 9"
    using refused_run [OF refused_env_facts, of 9 "main_init refused_env initial_world"]
    by (simp add: main_def main_init_counter)
  have b: "consecutive_errors (fst (main refused_env 10)) = 10"
    using refused_run [OF refused_env_facts, of 10 "main_init refused_env initial_world"]
    by (simp add: main_def main_init_counter)
  have c: "last (trace (snd (main refused_env 10))) = Sleep 60"
    unfolding main_def n10 by (rule refused_run_last [OF refused_env_facts])
  have d: "fst (get_public_ip refused_env 3 (snd (main refused_env 9))) = None"
    by (simp add: get_public_ip_all_refused [OF refused_env_facts(2)])
  show ?thesis using a b c d by simp
qed


text \<open>
  C2, as the code has it. After an iteration the counter is 0 when the iteration
  published or skipped, and one more than before when the probe failed or the publish
  failed. After an iteration that ended in an exception it is one more than before as
  long as that stays below 10, and 0 otherwise (the reset after the cooldown). These are
  all the transitions.
\<close>

theorem counter_transitions:
  "consecutive_errors (fst (main_step env (ls, w))) =
     (case iteration_ending env (ls, w) of
        Published w' \<Rightarrow> 0
      | Skipped w' \<Rightarrow> 0
      | ProbeFailed w' \<Rightarrow> consecutive_errors ls + 1
      | PublishFailed w' \<Rightarrow> consecutive_errors ls + 1
      | ProbeRaised w' \<Rightarrow>
          if consecutive_errors ls + 1 < max_consecutive_errors then consecutive_errors ls + 1 else 0
      | PublishRaised w' \<Rightarrow>
          if consecutive_errors ls + 1 < max_consecutive_errors then consecutive_errors ls + 1 else 0)"
proof (cases rule: ending_cases [of env ls w])
  case ProbeRaised
  then show ?thesis
    by (simp add: main_step_probe_raises on_exception_def Let_def split: prod.splits)
next
  case (ProbeFailed r w1)
  then show ?thesis
    using main_step_probe_failed [OF ProbeFailed(1,2,3)] by simp
next
  case (Skipped ip w1)
  then show ?thesis
    using main_step_skipped [OF Skipped(1,2,3,4)] by simp
next
  case (PublishRaised ip w1)
  then show ?thesis
    using main_step_publish_raises [OF PublishRaised(1,2,3,4,5)]
    by (simp add: on_exception_def Let_def split: prod.splits)
next
  case (Published ip w1 w2)
  then show ?thesis
    using main_step_published [OF Published(1,2,3,4,5,6)] by simp
next
  case (PublishFailed ip w1 w2)
  then show ?thesis
    using main_step_publish_failed [OF PublishFailed(1,2,3,4,5,6)] by simp
qed


text \<open>
  C2 as stated fails at the threshold: when an exception escapes in every iteration, the
  counter is 9 after nine iterations and 0, not 10, after the tenth.
\<close>

theorem counter_reset_counterexample:
  "probe_raises raising_env 10 \<and>
   consecutive_errors (fst (main raising_env 9)) = 9 \<and>
   consecutive_errors (fst (main raising_env 10)) = 0"
proof -
  have n10: "(10::nat) = Suc 9" by simp
  have a: "consecutive_errors (fst (main raising_env 9)) = 9"
    using raising_run [OF raising_env_facts, of "main_init raising_env initial_world" 9]
    by (simp add: main_def main_init_counter)
  have b: "consecutive_errors (fst (main raising_env 10)) = 0"
    using raising_step [OF raising_env_facts, of "main raising_env 9"] a
    unfolding main_def n10 main_loop_snoc by simp
  show ?thesis using a b raising_env_facts by simp
qed



section \<open>Claims about the probes\<close>

text \<open>
  C5. \<^verbatim>\<open>get_public_ip\<close> asks the services in the fixed order of its list, each at most
  three times: the services asked form a subsequence of the list with every service
  repeated three times. After a timeout of attempt 0 or 1 it sleeps \<open>2 ^ attempt\<close>
  seconds and takes the next attempt at the same service; after the third timeout it
  has no attempt left there. After any other request error, at whichever attempt, it
  leaves the service at once and goes on with the next one. An answer that is not a valid
  address takes the next attempt at once. The first valid answer, at whichever attempt,
  is returned and ends the probe. When it returns an address, that address passed the
  check and was the answer to the last request made, so no later endpoint was consulted;
  when it returns \<open>None\<close>, no request received a valid answer. It always returns. A valid
  answer of the first service is returned after that single request, and when the first
  service times out three times and the second answers, the second's address is returned.
\<close>

theorem probe_tries_services_in_order:
  "(\<exists>tr. snd (get_public_ip env 3 w) = w\<lparr>trace := trace w @ tr\<rparr> \<and>
         subseq (requests tr) (concat (map (replicate 3) ip_services)) \<and>
         (case fst (get_public_ip env 3 w) of
            None \<Rightarrow> (\<forall>e\<in>set tr. \<not> is_answer e)
          | Some ip \<Rightarrow>
              valid_ip ip \<and>
              (\<exists>tr0 s body. tr = tr0 @ [HttpGet s (Response 200 body)] \<and> strip body = ip \<and>
                 (\<forall>e\<in>set tr0. \<not> is_answer e)))) \<and>
   (http_out env (now w) = Timeout \<longrightarrow>
      attempts env service 3 (attempt # rest) w =
        attempts env service 3 rest
          (if attempt < 2 then emit (Sleep (2 ^ attempt)) (emit (HttpGet service Timeout) w)
           else emit (HttpGet service Timeout) w)) \<and>
   (http_out env (now w) = RequestException \<or> http_out env (now w) = OtherException \<longrightarrow>
      services_loop env 3 (service # others) w =
        services_loop env 3 others (emit (HttpGet service (http_out env (now w))) w)) \<and>
   (http_out env (now w) = RequestException \<or> http_out env (now w) = OtherException \<longrightarrow>
      attempts env service 3 (attempt # rest) w =
        (None, emit (HttpGet service (http_out env (now w))) w)) \<and>
   (http_out env (now w) = Response 200 body \<and> valid_ip (strip body) \<longrightarrow>
      attempts env service 3 (attempt # rest) w =
        (Some (strip body), emit (HttpGet service (Response 200 body)) w)) \<and>
   (http_out env (now w) = Response status_code body \<and>
    \<not> (status_code = 200 \<and> valid_ip (strip body)) \<longrightarrow>
      attempts env service 3 (attempt # rest) w =
        attempts env service 3 rest (emit (HttpGet service (Response status_code body)) w)) \<and>
   attempts env service 3 [] w = (None, w) \<and>
   services_loop env 3 (service # others) w =
     (case attempts env service 3 [0, 1, 2] w of
        (Some ip, w') \<Rightarrow> (Some ip, w')
      | (None, w') \<Rightarrow> services_loop env 3 others w') \<and>
   services_loop env 3 [] w = (None, w) \<and>
   get_public_ip env 3 w = services_loop env 3 ip_services w \<and>
   (http_out env (now w) = Response 200 body \<and> valid_ip (strip body) \<longrightarrow>
      get_public_ip env 3 w =
        (Some (strip body), emit (HttpGet (ip_services ! 0) (Response 200 body)) w)) \<and>
   (http_out env (now w) = Timeout \<and> http_out env (now w + 2) = Timeout \<and>
    http_out env (now w + 4) = Timeout \<and> http_out env (now w + 5) = Response 200 body \<and>
    valid_ip (strip body) \<longrightarrow>
      get_public_ip env 3 w =
        (Some (strip body),
         w\<lparr>trace := trace w @
           [HttpGet (ip_services ! 0) Timeout, Sleep 1, HttpGet (ip_services ! 0) Timeout, Sleep 2,
            HttpGet (ip_services ! 0) Timeout, HttpGet (ip_services ! 1) (Response 200 body)]\<rparr>))"
proof -
  have t: "http_out env (now w) = Timeout \<longrightarrow>
      attempts env service 3 (attempt # rest) w =
        attempts env service 3 rest
          (if attempt < 2 then emit (Sleep (2 ^ attempt)) (emit (HttpGet service Timeout) w)
           else emit (HttpGet service Timeout) w)"
  proof
    assume h: "http_out env (now w) = Timeout"
    have "(int attempt < int 3 - 1) = (attempt < 2)"
      by auto
    then show "attempts env service 3 (attempt # rest) w =
        attempts env service 3 rest
          (if attempt < 2 then emit (Sleep (2 ^ attempt)) (emit (HttpGet service Timeout) w)
           else emit (HttpGet service Timeout) w)"
      using attempts_Cons_timeout [OF h, of service 3 attempt rest] by simp
  qed
  have e: "http_out env (now w) = RequestException \<or> http_out env (now w) = OtherException \<longrightarrow>
      services_loop env 3 (service # others) w =
        services_loop env 3 others (emit (HttpGet service (http_out env (now w))) w)"
  proof
    assume h: "http_out env (now w) = RequestException \<or> http_out env (now w) = OtherException"
    show "services_loop env 3 (service # others) w =
        services_loop env 3 others (emit (HttpGet service (http_out env (now w))) w)"
      using attempts_Cons_error [OF h, of service 3 0 "[1, 2]"] by (simp add: upt_3)
  qed
  have c: "http_out env (now w) = Response 200 body \<and> valid_ip (strip body) \<longrightarrow>
      get_public_ip env 3 w =
        (Some (strip body), emit (HttpGet (ip_services ! 0) (Response 200 body)) w)"
    using get_public_ip_first_answer [of env w body] by (simp add: ip_services_def)
  have d: "http_out env (now w) = Timeout \<and> http_out env (now w + 2) = Timeout \<and>
    http_out env (now w + 4) = Timeout \<and> http_out env (now w + 5) = Response 200 body \<and>
    valid_ip (strip body) \<longrightarrow>
      get_public_ip env 3 w =
        (Some (strip body),
         w\<lparr>trace := trace w @
           [HttpGet (ip_services ! 0) Timeout, Sleep 1, HttpGet (ip_services ! 0) Timeout, Sleep 2,
            HttpGet (ip_services ! 0) Timeout, HttpGet (ip_services ! 1) (Response 200 body)]\<rparr>)"
    using get_public_ip_slow_first [of env w body] by (simp add: ip_services_def)
  have tr: "\<exists>tr. snd (get_public_ip env 3 w) = w\<lparr>trace := trace w @ tr\<rparr> \<and>
         subseq (requests tr) (concat (map (replicate 3) ip_services)) \<and>
         (case fst (get_public_ip env 3 w) of
            None \<Rightarrow> (\<forall>e\<in>set tr. \<not> is_answer e)
          | Some ip \<Rightarrow>
              valid_ip ip \<and>
              (\<exists>tr0 s body. tr = tr0 @ [HttpGet s (Response 200 body)] \<and> strip body = ip \<and>
                 (\<forall>e\<in>set tr0. \<not> is_answer e)))"
    using services_loop_trace [of env 3 ip_services w]
    unfolding get_public_ip_def [symmetric] .
  have e': "http_out env (now w) = RequestException \<or> http_out env (now w) = OtherException \<longrightarrow>
      attempts env service 3 (attempt # rest) w =
        (None, emit (HttpGet service (http_out env (now w))) w)"
    using attempts_Cons_error [of env w service 3 attempt rest] by blast
  have a': "http_out env (now w) = Response 200 body \<and> valid_ip (strip body) \<longrightarrow>
      attempts env service 3 (attempt # rest) w =
        (Some (strip body), emit (HttpGet service (Response 200 body)) w)"
    using attempts_Cons_answer [of env w body service 3 attempt rest] by blast
  have b': "http_out env (now w) = Response status_code body \<and>
    \<not> (status_code = 200 \<and> valid_ip (strip body)) \<longrightarrow>
      attempts env service 3 (attempt # rest) w =
        attempts env service 3 rest (emit (HttpGet service (Response status_code body)) w)"
    using attempts_Cons_bad [of env w status_code body service 3 attempt rest] by blast
  have n': "attempts env service 3 [] w = (None, w)"
    by simp
  have s': "services_loop env 3 (service # others) w =
     (case attempts env service 3 [0, 1, 2] w of
        (Some ip, w') \<Rightarrow> (Some ip, w')
      | (None, w') \<Rightarrow> services_loop env 3 others w')"
    by (simp add: upt_3)
  have sn: "services_loop env 3 [] w = (None, w)"
    by simp
  have g: "get_public_ip env 3 w = services_loop env 3 ip_services w"
    by (simp add: get_public_ip_def)
  show ?thesis
    by (intro conjI) (rule tr, rule t, rule e, rule e', rule a', rule b', rule n', rule s',
        rule sn, rule g, rule c, rule d)
qed

theorem probe_tries_services_in_order_witness:
  "get_public_ip calm_env 3 initial_world =
     (Some ''203.0.113.7'',
      emit (HttpGet ''https://api.ipify.org?format=text'' (Response 200 ''203.0.113.7'')) initial_world) \<and>
   get_public_ip slow_first_env 3 initial_world =
     (Some ''198.51.100.9'',
      initial_world\<lparr>trace :=
        [HttpGet ''https://api.ipify.org?format=text'' Timeout, Sleep 1,
         HttpGet ''https://api.ipify.org?format=text'' Timeout, Sleep 2,
         HttpGet ''https://api.ipify.org?format=text'' Timeout,
         HttpGet ''https://ifconfig.me/ip'' (Response 200 ''198.51.100.9'')]\<rparr>) \<and>
   services_loop refused_env 3 [''https://ifconfig.me/ip'', ''https://icanhazip.com''] initial_world =
     services_loop refused_env 3 [''https://icanhazip.com'']
       (emit (HttpGet ''https://ifconfig.me/ip'' RequestException) initial_world) \<and>
   attempts refused_env ''https://ifconfig.me/ip'' 3 [1, 2] initial_world =
     (None, emit (HttpGet ''https://ifconfig.me/ip'' RequestException) initial_world) \<and>
   attempts calm_env ''https://ifconfig.me/ip'' 3 [2] initial_world =
     (Some ''203.0.113.7'',
      emit (HttpGet ''https://ifconfig.me/ip'' (Response 200 ''203.0.113.7'')) initial_world) \<and>
   attempts garbled_env ''https://ifconfig.me/ip'' 3 [1, 2] initial_world =
     attempts garbled_env ''https://ifconfig.me/ip'' 3 [2]
       (emit (HttpGet ''https://ifconfig.me/ip'' (Response 200 ''<html>busy</html>'')) initial_world)"
proof -
  have n: "now initial_world = 0"
    by (simp add: now_def initial_world_def)
  have c: "http_out calm_env (now initial_world) = Response 200 ''203.0.113.7'' \<and>
      valid_ip (strip ''203.0.113.7'')"
    by (simp add: calm_env_def valid_example_address)
  have d: "http_out slow_first_env (now initial_world) = Timeout \<and>
      http_out slow_first_env (now initial_world + 2) = Timeout \<and>
      http_out slow_first_env (now initial_world + 4) = Timeout \<and>
      http_out slow_first_env (now initial_world + 5) = Response 200 ''198.51.100.9'' \<and>
      valid_ip (strip ''198.51.100.9'')"
    by (simp add: n slow_first_env_facts valid_second_address)
  have r: "http_out refused_env (now initial_world) = RequestException \<or>
      http_out refused_env (now initial_world) = OtherException"
    by (simp add: refused_env_facts)
  have r': "http_out refused_env (now initial_world) = RequestException"
    by (simp add: refused_env_facts)
  have g: "http_out garbled_env (now initial_world) = Response 200 ''<html>busy</html>'' \<and>
      \<not> (200 = (200::int) \<and> valid_ip (strip ''<html>busy</html>''))"
    by (simp add: garbled_env_facts garbled_text)
  note calm = probe_tries_services_in_order [where env = calm_env and w = initial_world
      and body = "''203.0.113.7''" and service = "''https://ifconfig.me/ip''" and attempt = 2
      and rest = "[]"]
  note slow = probe_tries_services_in_order [where env = slow_first_env and w = initial_world
      and body = "''198.51.100.9''"]
  note refused = probe_tries_services_in_order [where env = refused_env and w = initial_world
      and service = "''https://ifconfig.me/ip''" and others = "[''https://icanhazip.com'']"
      and attempt = 1 and rest = "[2]"]
  note garbled = probe_tries_services_in_order [where env = garbled_env and w = initial_world
      and service = "''https://ifconfig.me/ip''" and status_code = 200
      and body = "''<html>busy</html>''" and attempt = 1 and rest = "[2]"]
  have f1: "get_public_ip calm_env 3 initial_world =
      (Some (strip ''203.0.113.7''),
       emit (HttpGet (ip_services ! 0) (Response 200 ''203.0.113.7'')) initial_world)"
    using calm c by blast
  have f2: "get_public_ip slow_first_env 3 initial_world =
      (Some (strip ''198.51.100.9''),
       initial_world\<lparr>trace := trace initial_world @
         [HttpGet (ip_services ! 0) Timeout, Sleep 1, HttpGet (ip_services ! 0) Timeout, Sleep 2,
          HttpGet (ip_services ! 0) Timeout,
          HttpGet (ip_services ! 1) (Response 200 ''198.51.100.9'')]\<rparr>)"
    using slow d by blast
  have f3: "services_loop refused_env 3 [''https://ifconfig.me/ip'', ''https://icanhazip.com''] initial_world =
     services_loop refused_env 3 [''https://icanhazip.com'']
       (emit (HttpGet ''https://ifconfig.me/ip'' (http_out refused_env (now initial_world))) initial_world)"
    using refused r by blast
  have f4: "attempts refused_env ''https://ifconfig.me/ip'' 3 [1, 2] initial_world =
     (None, emit (HttpGet ''https://ifconfig.me/ip'' (http_out refused_env (now initial_world)))
        initial_world)"
    using refused r by blast
  have f5: "attempts calm_env ''https://ifconfig.me/ip'' 3 [2] initial_world =
     (Some (strip ''203.0.113.7''),
      emit (HttpGet ''https://ifconfig.me/ip'' (Response 200 ''203.0.113.7'')) initial_world)"
    using calm c by blast
  have f6: "attempts garbled_env ''https://ifconfig.me/ip'' 3 [1, 2] initial_world =
     attempts garbled_env ''https://ifconfig.me/ip'' 3 [2]
       (emit (HttpGet ''https://ifconfig.me/ip'' (Response 200 ''<html>busy</html>'')) initial_world)"
    using garbled g by blast
  have g1: "get_public_ip calm_env 3 initial_world =
     (Some ''203.0.113.7'',
      emit (HttpGet ''https://api.ipify.org?format=text'' (Response 200 ''203.0.113.7'')) initial_world)"
    using f1 by (simp add: valid_example_address ip_services_def)
  have g2: "get_public_ip slow_first_env 3 initial_world =
     (Some ''198.51.100.9'',
      initial_world\<lparr>trace :=
        [HttpGet ''https://api.ipify.org?format=text'' Timeout, Sleep 1,
         HttpGet ''https://api.ipify.org?format=text'' Timeout, Sleep 2,
         HttpGet ''https://api.ipify.org?format=text'' Timeout,
         HttpGet ''https://ifconfig.me/ip'' (Response 200 ''198.51.100.9'')]\<rparr>)"
    using f2 by (simp add: valid_second_address ip_services_def initial_world_def)
  have g3: "services_loop refused_env 3 [''https://ifconfig.me/ip'', ''https://icanhazip.com''] initial_world =
     services_loop refused_env 3 [''https://icanhazip.com'']
       (emit (HttpGet ''https://ifconfig.me/ip'' RequestException) initial_world)"
    using f3 unfolding r' .
  have g4: "attempts refused_env ''https://ifconfig.me/ip'' 3 [1, 2] initial_world =
     (None, emit (HttpGet ''https://ifconfig.me/ip'' RequestException) initial_world)"
    using f4 unfolding r' .
  have g5: "attempts calm_env ''https://ifconfig.me/ip'' 3 [2] initial_world =
     (Some ''203.0.113.7'',
      emit (HttpGet ''https://ifconfig.me/ip'' (Response 200 ''203.0.113.7'')) initial_world)"
    using f5 unfolding valid_example_address(1) .
  show ?thesis
    by (intro conjI) (rule g1, rule g2, rule g3, rule g4, rule g5, rule f6)
qed

text \<open>
  C8. The claim holds for \<^verbatim>\<open>get_public_ip\<close> of \<^verbatim>\<open>scripts/public_ip.py\<close>, which accepts
  a text only if it is not empty and has four parts between dots (see C5: a returned
  address passed the check). \<^verbatim>\<open>IPMonitor.get_public_ip\<close> has no such check: it accepts
  any text that is not empty. Where a lookup service answers with status 200 and an
  web page, the monitor returns the page as the address, while the publishing probe
  reports a failure on the same answers.
\<close>

theorem monitor_accepts_unchecked_text:
  "IPMonitor_get_public_ip garbled_env (IPMonitor_init 3600) initial_world =
     (Some ''<html>busy</html>'',
      emit (HttpGet ''https://api.ipify.org?format=text'' (Response 200 ''<html>busy</html>''))
        initial_world) \<and>
   \<not> valid_ip ''<html>busy</html>'' \<and>
   fst (get_public_ip garbled_env 3 initial_world) = None"
proof -
  have a: "IPMonitor_get_public_ip garbled_env (IPMonitor_init 3600) initial_world =
     (Some ''<html>busy</html>'',
      emit (HttpGet ''https://api.ipify.org?format=text'' (Response 200 ''<html>busy</html>''))
        initial_world)"
    by (simp add: IPMonitor_get_public_ip_def IPMonitor_init_def ip_services_def
        garbled_env_facts garbled_text)
  have b: "fst (get_public_ip garbled_env 3 initial_world) = None"
    by (simp add: get_public_ip_def ip_services_def upt_3 garbled_env_facts garbled_text Let_def)
  show ?thesis
    using a b garbled_text(2) by simp
qed


section \<open>Claims about the publish pipeline and the shared connection\<close>

text \<open>
  C6. \<^verbatim>\<open>post_to_redis\<close> makes at most \<open>max_retries\<close> writes (three by default), the first
  one over the handle it is given, or over the handle \<^verbatim>\<open>get_redis_client\<close> returns when it
  is given none. What an attempt does is decided by the answer to its write. A write that
  succeeds ends the call with \<^verbatim>\<open>True\<close>. A write that fails with anything but a
  connection error ends the call with \<^verbatim>\<open>False\<close> at once. A write that fails with a
  connection error at the last attempt ends the call with \<^verbatim>\<open>False\<close>; at an earlier
  attempt \<^verbatim>\<open>get_redis_client\<close> is called: if it returns a handle, the remaining attempts
  run over that handle, and if it returns none, the call sleeps \<open>2 ^ attempt\<close> seconds and
  ends with \<^verbatim>\<open>False\<close>. On the events of a call this means: a write that did not fail
  with a connection error is the last event; every write that follows another event
  follows a ping the store answered on the very handle the write uses; a connection
  error before the last attempt is followed, after the pings of the reconnection, by a
  sleep or by another write; a sleep occurs only after a reconnection that failed, lasts
  \<open>2 ^ attempt\<close> seconds and is the last event.
\<close>

theorem publish_retries_after_reconnecting:
  "(\<exists>tr. trace (snd (post_to_redis env key c val m w)) = trace w @ tr \<and>
        length (set_outcomes tr) \<le> m \<and>
        (\<forall>a h k v r b. tr = a @ SetKey h k v r # b \<and> r \<noteq> ConnectionError \<longrightarrow>
           b = [] \<and> fst (post_to_redis env key c val m w) = (r = Ok)) \<and>
        (\<forall>a e h k v r b. tr = a @ e # SetKey h k v r # b \<longrightarrow> alive h e) \<and>
        (\<forall>a n b. tr = a @ Sleep n # b \<longrightarrow>
           b = [] \<and> \<not> fst (post_to_redis env key c val m w) \<and> a \<noteq> [] \<and>
           (\<forall>h. \<not> alive h (last a)) \<and> set_outcomes a \<noteq> [] \<and>
           n = 2 ^ (length (set_outcomes a) - 1)) \<and>
        (\<forall>a h k v b. tr = a @ SetKey h k v ConnectionError # b \<longrightarrow>
           (if length (set_outcomes a) + 1 < m
            then \<exists>g x b'. b = g @ x # b' \<and> (\<forall>e\<in>set g. is_check e) \<and>
                   ((\<exists>n. x = Sleep n) \<or> (\<exists>h' k' v' r'. x = SetKey h' k' v' r'))
            else b = [] \<and> \<not> fst (post_to_redis env key c val m w))) \<and>
        (fst (post_to_redis env key c val m w) \<longrightarrow>
           tr \<noteq> [] \<and> (\<exists>h k v. last tr = SetKey h k v Ok))) \<and>
   (redis_out env (now w) = Ok \<longrightarrow>
      set_attempts env key val m (attempt # rest) (Some client) w =
        (True, emit (SetKey client key val Ok) w)) \<and>
   (redis_out env (now w) = OtherError \<longrightarrow>
      set_attempts env key val m (attempt # rest) (Some client) w =
        (False, emit (SetKey client key val OtherError) w)) \<and>
   (redis_out env (now w) = ConnectionError \<and> \<not> attempt + 1 < m \<longrightarrow>
      set_attempts env key val m (attempt # rest) (Some client) w =
        (False, emit (SetKey client key val ConnectionError) w)) \<and>
   (redis_out env (now w) = ConnectionError \<and> attempt + 1 < m \<longrightarrow>
      set_attempts env key val m (attempt # rest) (Some client) w =
        (case get_redis_client env (emit (SetKey client key val ConnectionError) w) of
           (None, w') \<Rightarrow> (False, emit (Sleep (2 ^ attempt)) w')
         | (Some client', w') \<Rightarrow> set_attempts env key val m rest (Some client') w')) \<and>
   set_attempts env key val m [] c w = (False, w) \<and>
   post_to_redis env key (Some client) val m w =
     set_attempts env key val m [0..<m] (Some client) w \<and>
   post_to_redis env key None val m w =
     (case get_redis_client env w of
        (None, w') \<Rightarrow> (False, w')
      | (Some client', w') \<Rightarrow> set_attempts env key val m [0..<m] (Some client') w')"
proof -
  let ?ok = "fst (post_to_redis env key c val m w)"
  from post_to_redis_shape [of env key c val m w]
  obtain tr where T: "trace (snd (post_to_redis env key c val m w)) = trace w @ tr \<and>
    shape m ?ok 0 None tr \<and> length (set_outcomes tr) \<le> m" ..
  have tr: "trace (snd (post_to_redis env key c val m w)) = trace w @ tr"
    "shape m ?ok 0 None tr" "length (set_outcomes tr) \<le> m"
    using T by (rule conjunct1, rule conjunct2 [THEN conjunct1], rule conjunct2 [THEN conjunct2])
  have wr: "\<forall>a h k v r b. tr = a @ SetKey h k v r # b \<and> r \<noteq> ConnectionError \<longrightarrow>
           b = [] \<and> ?ok = (r = Ok)"
    using shape_write [OF tr(2)] by blast
  have g: "\<forall>a e h k v r b. tr = a @ e # SetKey h k v r # b \<longrightarrow> alive h e"
    using shape_guard [OF tr(2)] by blast
  have s: "\<forall>a n b. tr = a @ Sleep n # b \<longrightarrow>
           b = [] \<and> \<not> ?ok \<and> a \<noteq> [] \<and> (\<forall>h. \<not> alive h (last a)) \<and> set_outcomes a \<noteq> [] \<and>
           n = 2 ^ (length (set_outcomes a) - 1)"
  proof (intro allI impI)
    fix a n b
    assume d: "tr = a @ Sleep n # b"
    from shape_sleep [OF tr(2) d]
    have f: "b = []" "\<not> ?ok" "0 < 0 + length (set_outcomes a)"
      "n = 2 ^ (0 + length (set_outcomes a) - 1)"
      "if a = [] then \<exists>e. None = Some e \<and> (\<forall>h. \<not> alive h e) else \<forall>h. \<not> alive h (last a)"
      by blast+
    have ne: "a \<noteq> []"
      using f(3) by auto
    show "b = [] \<and> \<not> ?ok \<and> a \<noteq> [] \<and> (\<forall>h. \<not> alive h (last a)) \<and> set_outcomes a \<noteq> [] \<and>
           n = 2 ^ (length (set_outcomes a) - 1)"
      using f ne by auto
  qed
  have r: "\<forall>a h k v b. tr = a @ SetKey h k v ConnectionError # b \<longrightarrow>
           (if length (set_outcomes a) + 1 < m
            then \<exists>g x b'. b = g @ x # b' \<and> (\<forall>e\<in>set g. is_check e) \<and>
                   ((\<exists>n. x = Sleep n) \<or> (\<exists>h' k' v' r'. x = SetKey h' k' v' r'))
            else b = [] \<and> \<not> ?ok)"
  proof (intro allI impI)
    fix a h k v b
    assume d: "tr = a @ SetKey h k v ConnectionError # b"
    note sr = shape_retry [OF tr(2) d]
    show "if length (set_outcomes a) + 1 < m
            then \<exists>g x b'. b = g @ x # b' \<and> (\<forall>e\<in>set g. is_check e) \<and>
                   ((\<exists>n. x = Sleep n) \<or> (\<exists>h' k' v' r'. x = SetKey h' k' v' r'))
            else b = [] \<and> \<not> ?ok"
    proof (cases "length (set_outcomes a) + 1 < m")
      case True
      then have "dropWhile is_check b \<noteq> []"
        using sr by simp
      from next_after_checks [OF this]
      obtain g x b' where x: "b = g @ x # b'" "\<forall>e\<in>set g. is_check e" "\<not> is_check x"
        by blast
      have "x \<in> set tr"
        using d x(1) by simp
      from shape_events [OF tr(2) this] x(3)
      have k: "(\<exists>n. x = Sleep n) \<or> (\<exists>h' k' v' r'. x = SetKey h' k' v' r')"
        by blast
      have "\<exists>g x b'. b = g @ x # b' \<and> (\<forall>e\<in>set g. is_check e) \<and>
                   ((\<exists>n. x = Sleep n) \<or> (\<exists>h' k' v' r'. x = SetKey h' k' v' r'))"
        by (intro exI [of _ g] exI [of _ x] exI [of _ b'] conjI) (rule x(1), rule x(2), rule k)
      then show ?thesis
        using True by simp
    next
      case False
      then show ?thesis
        using sr by simp
    qed
  qed
  have l: "?ok \<longrightarrow> tr \<noteq> [] \<and> (\<exists>h k v. last tr = SetKey h k v Ok)"
  proof
    assume ok: "?ok"
    have ne: "tr \<noteq> []"
      using tr(2) ok by auto
    from shape_success [OF tr(2) ok ne] ne
    show "tr \<noteq> [] \<and> (\<exists>h k v. last tr = SetKey h k v Ok)"
      by blast
  qed
  have first: "\<exists>tr. trace (snd (post_to_redis env key c val m w)) = trace w @ tr \<and>
        length (set_outcomes tr) \<le> m \<and>
        (\<forall>a h k v r b. tr = a @ SetKey h k v r # b \<and> r \<noteq> ConnectionError \<longrightarrow>
           b = [] \<and> ?ok = (r = Ok)) \<and>
        (\<forall>a e h k v r b. tr = a @ e # SetKey h k v r # b \<longrightarrow> alive h e) \<and>
        (\<forall>a n b. tr = a @ Sleep n # b \<longrightarrow>
           b = [] \<and> \<not> ?ok \<and> a \<noteq> [] \<and>
           (\<forall>h. \<not> alive h (last a)) \<and> set_outcomes a \<noteq> [] \<and>
           n = 2 ^ (length (set_outcomes a) - 1)) \<and>
        (\<forall>a h k v b. tr = a @ SetKey h k v ConnectionError # b \<longrightarrow>
           (if length (set_outcomes a) + 1 < m
            then \<exists>g x b'. b = g @ x # b' \<and> (\<forall>e\<in>set g. is_check e) \<and>
                   ((\<exists>n. x = Sleep n) \<or> (\<exists>h' k' v' r'. x = SetKey h' k' v' r'))
            else b = [] \<and> \<not> ?ok)) \<and>
        (?ok \<longrightarrow> tr \<noteq> [] \<and> (\<exists>h k v. last tr = SetKey h k v Ok))"
    by (intro exI [of _ tr] conjI) (rule tr(1), rule tr(3), rule wr, rule g, rule s, rule r, rule l)
  have e1: "redis_out env (now w) = Ok \<longrightarrow>
      set_attempts env key val m (attempt # rest) (Some client) w =
        (True, emit (SetKey client key val Ok) w)"
    using set_attempts_final [of env w Ok attempt m key val rest client] by simp
  have e2: "redis_out env (now w) = OtherError \<longrightarrow>
      set_attempts env key val m (attempt # rest) (Some client) w =
        (False, emit (SetKey client key val OtherError) w)"
    using set_attempts_final [of env w OtherError attempt m key val rest client] by simp
  have e3: "redis_out env (now w) = ConnectionError \<and> \<not> attempt + 1 < m \<longrightarrow>
      set_attempts env key val m (attempt # rest) (Some client) w =
        (False, emit (SetKey client key val ConnectionError) w)"
  proof
    assume h: "redis_out env (now w) = ConnectionError \<and> \<not> attempt + 1 < m"
    then have "\<not> int attempt < int m - 1"
      by auto
    then show "set_attempts env key val m (attempt # rest) (Some client) w =
        (False, emit (SetKey client key val ConnectionError) w)"
      using set_attempts_final [of env w ConnectionError attempt m key val rest client] h by simp
  qed
  have e4: "redis_out env (now w) = ConnectionError \<and> attempt + 1 < m \<longrightarrow>
      set_attempts env key val m (attempt # rest) (Some client) w =
        (case get_redis_client env (emit (SetKey client key val ConnectionError) w) of
           (None, w') \<Rightarrow> (False, emit (Sleep (2 ^ attempt)) w')
         | (Some client', w') \<Rightarrow> set_attempts env key val m rest (Some client') w')"
  proof
    assume h: "redis_out env (now w) = ConnectionError \<and> attempt + 1 < m"
    then have ce: "redis_out env (now w) = ConnectionError" and lt: "int attempt < int m - 1"
      by auto
    obtain c' w2 where g: "get_redis_client env (emit (SetKey client key val ConnectionError) w) = (c', w2)"
      by (cases "get_redis_client env (emit (SetKey client key val ConnectionError) w)")
    show "set_attempts env key val m (attempt # rest) (Some client) w =
        (case get_redis_client env (emit (SetKey client key val ConnectionError) w) of
           (None, w') \<Rightarrow> (False, emit (Sleep (2 ^ attempt)) w')
         | (Some client', w') \<Rightarrow> set_attempts env key val m rest (Some client') w')"
      unfolding set_attempts_retry [OF ce lt g] g by (cases c') simp_all
  qed
  have e5: "set_attempts env key val m [] c w = (False, w)"
    by simp
  have e6: "post_to_redis env key (Some client) val m w =
     set_attempts env key val m [0..<m] (Some client) w"
    by (simp add: post_to_redis_def)
  have e7: "post_to_redis env key None val m w =
     (case get_redis_client env w of
        (None, w') \<Rightarrow> (False, w')
      | (Some client', w') \<Rightarrow> set_attempts env key val m [0..<m] (Some client') w')"
    by (simp add: post_to_redis_def split: prod.splits option.splits)
  show ?thesis
    by (intro conjI) (rule first, rule e1, rule e2, rule e3, rule e4, rule e5, rule e6, rule e7)
qed


theorem publish_retries_after_reconnecting_witness:
  "post_to_redis stale_env ip_key (Some 0) ''203.0.113.7'' 3 connected_world =
     (True,
      \<lparr>redis_client_global = Some 3,
       trace = [Connect 0 ''redis'' 6379 Ok,
                SetKey 0 ip_key ''203.0.113.7'' ConnectionError, Ping 0 ConnectionError,
                Connect 3 ''redis'' 6379 Ok, SetKey 3 ip_key ''203.0.113.7'' Ok]\<rparr>) \<and>
   post_to_redis down_env ip_key (Some 0) ''203.0.113.7'' 3 connected_world =
     (False,
      \<lparr>redis_client_global = None,
       trace = [Connect 0 ''redis'' 6379 Ok,
                SetKey 0 ip_key ''203.0.113.7'' ConnectionError, Ping 0 ConnectionError,
                Connect 3 ''redis'' 6379 ConnectionError, Sleep 1]\<rparr>) \<and>
   alive 3 (Connect 3 ''redis'' 6379 Ok) \<and>
   (\<forall>h. \<not> alive h (Connect 3 ''redis'' 6379 ConnectionError))"
proof -
  let ?v = "''203.0.113.7''"
  let ?w1 = "emit (SetKey 0 ip_key ?v ConnectionError) connected_world"
  let ?ws = "\<lparr>redis_client_global = Some 3,
       trace = [Connect 0 ''redis'' 6379 Ok, SetKey 0 ip_key ?v ConnectionError,
                Ping 0 ConnectionError, Connect 3 ''redis'' 6379 Ok]\<rparr>"
  let ?wd = "\<lparr>redis_client_global = None,
       trace = [Connect 0 ''redis'' 6379 Ok, SetKey 0 ip_key ?v ConnectionError,
                Ping 0 ConnectionError, Connect 3 ''redis'' 6379 ConnectionError]\<rparr>"
  have n0: "now connected_world = 1"
    by (simp add: now_def connected_world_def)
  have lt: "(0::nat) + 1 < 3"
    by simp
  \<comment> \<open>the store is down\<close>
  note down = publish_retries_after_reconnecting [where env = down_env and key = ip_key
      and val = ?v and m = 3 and w = connected_world and client = 0 and attempt = 0
      and rest = "[1, 2]" and c = "Some 0"]
  have pd: "redis_out down_env (now connected_world) = ConnectionError \<and> (0::nat) + 1 < 3"
    by (simp add: down_env_facts)
  note d4 = down [THEN conjunct2, THEN conjunct2, THEN conjunct2, THEN conjunct2, THEN conjunct1,
      THEN mp, OF pd]
  note d6 = down [THEN conjunct2, THEN conjunct2, THEN conjunct2, THEN conjunct2, THEN conjunct2,
      THEN conjunct2, THEN conjunct1]
  have gd: "get_redis_client down_env ?w1 = (None, ?wd)"
    by (simp add: get_redis_client_def connect_redis_def default_port down_env_facts
        connected_world_def emit_def now_def Let_def)
  have rd: "post_to_redis down_env ip_key (Some 0) ?v 3 connected_world =
      (False, \<lparr>redis_client_global = None,
       trace = [Connect 0 ''redis'' 6379 Ok, SetKey 0 ip_key ?v ConnectionError,
                Ping 0 ConnectionError, Connect 3 ''redis'' 6379 ConnectionError, Sleep 1]\<rparr>)"
    unfolding d6 upt_3 d4 gd prod.case option.case by (simp add: emit_def)
  \<comment> \<open>the cached handle has gone stale\<close>
  note stale = publish_retries_after_reconnecting [where env = stale_env and key = ip_key
      and val = ?v and m = 3 and w = connected_world and client = 0 and attempt = 0
      and rest = "[1, 2]" and c = "Some 0"]
  note again = publish_retries_after_reconnecting [where env = stale_env and key = ip_key
      and val = ?v and m = 3 and w = ?ws and client = 3 and attempt = 1 and rest = "[2]"]
  have ps: "redis_out stale_env (now connected_world) = ConnectionError \<and> (0::nat) + 1 < 3"
    by (simp add: stale_env_facts n0)
  have pa: "redis_out stale_env (now ?ws) = Ok"
    by (simp add: stale_env_facts now_def)
  note s4 = stale [THEN conjunct2, THEN conjunct2, THEN conjunct2, THEN conjunct2, THEN conjunct1,
      THEN mp, OF ps]
  note s6 = stale [THEN conjunct2, THEN conjunct2, THEN conjunct2, THEN conjunct2, THEN conjunct2,
      THEN conjunct2, THEN conjunct1]
  note a1 = again [THEN conjunct2, THEN conjunct1, THEN mp, OF pa]
  have gs: "get_redis_client stale_env ?w1 = (Some 3, ?ws)"
    by (simp add: get_redis_client_def connect_redis_def default_port stale_env_facts
        connected_world_def emit_def now_def Let_def)
  have rs: "post_to_redis stale_env ip_key (Some 0) ?v 3 connected_world =
      (True, \<lparr>redis_client_global = Some 3,
       trace = [Connect 0 ''redis'' 6379 Ok, SetKey 0 ip_key ?v ConnectionError,
                Ping 0 ConnectionError, Connect 3 ''redis'' 6379 Ok, SetKey 3 ip_key ?v Ok]\<rparr>)"
    unfolding s6 upt_3 s4 gs prod.case option.case a1 by (simp add: emit_def)
  \<comment> \<open>the events of the two calls\<close>
  from stale [THEN conjunct1]
  obtain tr where tr:
    "trace (snd (post_to_redis stale_env ip_key (Some 0) ?v 3 connected_world)) = trace connected_world @ tr
     \<and> length (set_outcomes tr) \<le> 3
     \<and> (\<forall>a h k v r b. tr = a @ SetKey h k v r # b \<and> r \<noteq> ConnectionError \<longrightarrow>
           b = [] \<and> fst (post_to_redis stale_env ip_key (Some 0) ?v 3 connected_world) = (r = Ok))
     \<and> (\<forall>a e h k v r b. tr = a @ e # SetKey h k v r # b \<longrightarrow> alive h e)
     \<and> (\<forall>a n b. tr = a @ Sleep n # b \<longrightarrow>
           b = [] \<and> \<not> fst (post_to_redis stale_env ip_key (Some 0) ?v 3 connected_world) \<and> a \<noteq> [] \<and>
           (\<forall>h. \<not> alive h (last a)) \<and> set_outcomes a \<noteq> [] \<and>
           n = 2 ^ (length (set_outcomes a) - 1))
     \<and> (\<forall>a h k v b. tr = a @ SetKey h k v ConnectionError # b \<longrightarrow>
           (if length (set_outcomes a) + 1 < 3
            then \<exists>g x b'. b = g @ x # b' \<and> (\<forall>e\<in>set g. is_check e) \<and>
                   ((\<exists>n. x = Sleep n) \<or> (\<exists>h' k' v' r'. x = SetKey h' k' v' r'))
            else b = [] \<and> \<not> fst (post_to_redis stale_env ip_key (Some 0) ?v 3 connected_world)))
     \<and> (fst (post_to_redis stale_env ip_key (Some 0) ?v 3 connected_world) \<longrightarrow>
           tr \<noteq> [] \<and> (\<exists>h k v. last tr = SetKey h k v Ok))" ..
  have t1: "tr = [SetKey 0 ip_key ?v ConnectionError, Ping 0 ConnectionError,
                 Connect 3 ''redis'' 6379 Ok, SetKey 3 ip_key ?v Ok]"
    using tr [THEN conjunct1] unfolding rs by (simp add: connected_world_def)
  have d1: "tr = [SetKey 0 ip_key ?v ConnectionError, Ping 0 ConnectionError] @
      Connect 3 ''redis'' 6379 Ok # SetKey 3 ip_key ?v Ok # []"
    using t1 by simp
  have al: "alive 3 (Connect 3 ''redis'' 6379 Ok)"
    using tr [THEN conjunct2, THEN conjunct2, THEN conjunct2, THEN conjunct1] d1 by blast
  from down [THEN conjunct1]
  obtain tr' where tr':
    "trace (snd (post_to_redis down_env ip_key (Some 0) ?v 3 connected_world)) = trace connected_world @ tr'
     \<and> length (set_outcomes tr') \<le> 3
     \<and> (\<forall>a h k v r b. tr' = a @ SetKey h k v r # b \<and> r \<noteq> ConnectionError \<longrightarrow>
           b = [] \<and> fst (post_to_redis down_env ip_key (Some 0) ?v 3 connected_world) = (r = Ok))
     \<and> (\<forall>a e h k v r b. tr' = a @ e # SetKey h k v r # b \<longrightarrow> alive h e)
     \<and> (\<forall>a n b. tr' = a @ Sleep n # b \<longrightarrow>
           b = [] \<and> \<not> fst (post_to_redis down_env ip_key (Some 0) ?v 3 connected_world) \<and> a \<noteq> [] \<and>
           (\<forall>h. \<not> alive h (last a)) \<and> set_outcomes a \<noteq> [] \<and>
           n = 2 ^ (length (set_outcomes a) - 1))
     \<and> (\<forall>a h k v b. tr' = a @ SetKey h k v ConnectionError # b \<longrightarrow>
           (if length (set_outcomes a) + 1 < 3
            then \<exists>g x b'. b = g @ x # b' \<and> (\<forall>e\<in>set g. is_check e) \<and>
                   ((\<exists>n. x = Sleep n) \<or> (\<exists>h' k' v' r'. x = SetKey h' k' v' r'))
            else b = [] \<and> \<not> fst (post_to_redis down_env ip_key (Some 0) ?v 3 connected_world)))
     \<and> (fst (post_to_redis down_env ip_key (Some 0) ?v 3 connected_world) \<longrightarrow>
           tr' \<noteq> [] \<and> (\<exists>h k v. last tr' = SetKey h k v Ok))" ..
  have t2: "tr' = [SetKey 0 ip_key ?v ConnectionError, Ping 0 ConnectionError,
                Connect 3 ''redis'' 6379 ConnectionError, Sleep 1]"
    using tr' [THEN conjunct1] unfolding rd by (simp add: connected_world_def)
  have d2: "tr' = [SetKey 0 ip_key ?v ConnectionError, Ping 0 ConnectionError,
      Connect 3 ''redis'' 6379 ConnectionError] @ Sleep 1 # []"
    using t2 by simp
  have "\<forall>h. \<not> alive h (last [SetKey 0 ip_key ?v ConnectionError, Ping 0 ConnectionError,
      Connect 3 ''redis'' 6379 ConnectionError])"
    using tr' [THEN conjunct2, THEN conjunct2, THEN conjunct2, THEN conjunct2, THEN conjunct1] d2
    by blast
  then have na: "\<forall>h. \<not> alive h (Connect 3 ''redis'' 6379 ConnectionError)"
    by simp
  show ?thesis
    by (intro conjI) (rule rs, rule rd, rule al, rule na)
qed


text \<open>
  C7. \<^verbatim>\<open>get_redis_client\<close> pings a cached handle before it returns it. When the ping
  fails, the cached handle is dropped and, the host and the port being configured, a new
  client is connected at once; it is returned and cached when its first ping is
  answered. With nothing cached the new client is connected directly.

  \<^verbatim>\<open>post_to_redis\<close> asks for the connection again only after a write has raised
  \<^verbatim>\<open>redis.ConnectionError\<close>. Then, whatever handle \<open>h\<close> the caller passed and whatever
  handle \<open>hc\<close> is cached, a store that answers again is reached: the write is repeated
  once, over the cached handle when its ping is answered, over a new handle otherwise,
  and the result is \<^verbatim>\<open>True\<close>. The loop sees a successful publish and nothing else: the
  address is recorded, the counter is 0; its own handle is left as it was, so a later
  publish starts over the dead handle again and recovers the same way.

  When the write over the handle raises any other exception, \<^verbatim>\<open>post_to_redis\<close> returns
  \<^verbatim>\<open>False\<close> after that one write: no ping, no new connection, and the loop counts a
  failure.
\<close>

theorem stale_handle_is_replaced:
  assumes host: "REDIS_HOST env = Some host" "host \<noteq> []"
      and port: "py_int (int_max_str_digits env) (case REDIS_PORT env of None \<Rightarrow> ''6379'' | Some p \<Rightarrow> p) = Some port"
  shows "(redis_client_global w = Some hc \<and> redis_out env (now w) = Ok \<longrightarrow>
            get_redis_client env w = (Some hc, emit (Ping hc Ok) w)) \<and>
         (redis_client_global w = Some hc \<and> redis_out env (now w) \<noteq> Ok \<longrightarrow>
            get_redis_client env w =
              (if redis_out env (now w + 1) = Ok then Some (now w + 1) else None,
               w\<lparr>trace := trace w @
                   [Ping hc (redis_out env (now w)),
                    Connect (now w + 1) host port (redis_out env (now w + 1))],
                 redis_client_global :=
                   if redis_out env (now w + 1) = Ok then Some (now w + 1) else None\<rparr>)) \<and>
         (redis_client_global w = None \<longrightarrow>
            get_redis_client env w =
              (if redis_out env (now w) = Ok then Some (now w) else None,
               w\<lparr>trace := trace w @ [Connect (now w) host port (redis_out env (now w))],
                 redis_client_global :=
                   if redis_out env (now w) = Ok then Some (now w) else None\<rparr>)) \<and>
         (redis_client_global w = Some hc \<and>
          redis_out env (now w) = ConnectionError \<and> redis_out env (now w + 1) \<noteq> Ok \<and>
          redis_out env (now w + 2) = Ok \<and> redis_out env (now w + 3) = Ok \<longrightarrow>
            post_to_redis env key (Some h) val 3 w =
              (True,
               w\<lparr>trace := trace w @
                   [SetKey h key val ConnectionError, Ping hc (redis_out env (now w + 1)),
                    Connect (now w + 2) host port Ok, SetKey (now w + 2) key val Ok],
                 redis_client_global := Some (now w + 2)\<rparr>)) \<and>
         (redis_client_global w = Some hc \<and>
          redis_out env (now w) = ConnectionError \<and> redis_out env (now w + 1) = Ok \<and>
          redis_out env (now w + 2) = Ok \<longrightarrow>
            post_to_redis env key (Some h) val 3 w =
              (True,
               w\<lparr>trace := trace w @
                   [SetKey h key val ConnectionError, Ping hc Ok, SetKey hc key val Ok]\<rparr>)) \<and>
         (redis_client_global w = None \<and>
          redis_out env (now w) = ConnectionError \<and> redis_out env (now w + 1) = Ok \<and>
          redis_out env (now w + 2) = Ok \<longrightarrow>
            post_to_redis env key (Some h) val 3 w =
              (True,
               w\<lparr>trace := trace w @
                   [SetKey h key val ConnectionError, Connect (now w + 1) host port Ok,
                    SetKey (now w + 1) key val Ok],
                 redis_client_global := Some (now w + 1)\<rparr>)) \<and>
         (redis_out env (now w) = OtherError \<longrightarrow>
            post_to_redis env key (Some h) val 3 w =
              (False, emit (SetKey h key val OtherError) w)) \<and>
         (\<not> probe_raises env (iteration ls + 1) \<and> \<not> publish_raises env (iteration ls + 1) \<and>
          get_public_ip env 3 w = (Some ip, w1) \<and> ip \<noteq> [] \<and> last_successful_ip ls \<noteq> Some ip \<and>
          redis_client ls = Some h \<and> recovers env w1 \<longrightarrow>
            fst (main_step env (ls, w)) =
              ls\<lparr>iteration := iteration ls + 1, last_successful_ip := Some ip,
                 consecutive_errors := 0\<rparr>) \<and>
         (\<not> probe_raises env (iteration ls + 1) \<and> \<not> publish_raises env (iteration ls + 1) \<and>
          get_public_ip env 3 w = (Some ip, w1) \<and> ip \<noteq> [] \<and> last_successful_ip ls \<noteq> Some ip \<and>
          redis_client ls = Some h \<and> redis_out env (now w1) = OtherError \<longrightarrow>
            main_step env (ls, w) =
              (ls\<lparr>iteration := iteration ls + 1,
                  consecutive_errors := consecutive_errors ls + 1\<rparr>,
               emit (Sleep sleep_interval) (emit (SetKey h ip_key ip OtherError) w1)))"
proof -
  have a: "redis_client_global w = Some hc \<and> redis_out env (now w) = Ok \<longrightarrow>
            get_redis_client env w = (Some hc, emit (Ping hc Ok) w)"
    using get_redis_client_alive [of w hc env] by blast
  have b: "redis_client_global w = Some hc \<and> redis_out env (now w) \<noteq> Ok \<longrightarrow>
            get_redis_client env w =
              (if redis_out env (now w + 1) = Ok then Some (now w + 1) else None,
               w\<lparr>trace := trace w @
                   [Ping hc (redis_out env (now w)),
                    Connect (now w + 1) host port (redis_out env (now w + 1))],
                 redis_client_global :=
                   if redis_out env (now w + 1) = Ok then Some (now w + 1) else None\<rparr>)"
    using get_redis_client_dead [OF _ host port, of w hc] by blast
  have c: "redis_client_global w = None \<longrightarrow>
            get_redis_client env w =
              (if redis_out env (now w) = Ok then Some (now w) else None,
               w\<lparr>trace := trace w @ [Connect (now w) host port (redis_out env (now w))],
                 redis_client_global :=
                   if redis_out env (now w) = Ok then Some (now w) else None\<rparr>)"
    using get_redis_client_uncached [OF _ host port, of w] by blast
  have d: "redis_client_global w = Some hc \<and>
          redis_out env (now w) = ConnectionError \<and> redis_out env (now w + 1) \<noteq> Ok \<and>
          redis_out env (now w + 2) = Ok \<and> redis_out env (now w + 3) = Ok \<longrightarrow>
            post_to_redis env key (Some h) val 3 w =
              (True,
               w\<lparr>trace := trace w @
                   [SetKey h key val ConnectionError, Ping hc (redis_out env (now w + 1)),
                    Connect (now w + 2) host port Ok, SetKey (now w + 2) key val Ok],
                 redis_client_global := Some (now w + 2)\<rparr>)"
    using publish_over_dead_handles [OF _ host port, of w hc key h val] by blast
  have e: "redis_client_global w = Some hc \<and>
          redis_out env (now w) = ConnectionError \<and> redis_out env (now w + 1) = Ok \<and>
          redis_out env (now w + 2) = Ok \<longrightarrow>
            post_to_redis env key (Some h) val 3 w =
              (True,
               w\<lparr>trace := trace w @
                   [SetKey h key val ConnectionError, Ping hc Ok, SetKey hc key val Ok]\<rparr>)"
    using publish_over_cached_handle [of w hc env key h val] by blast
  have f: "redis_client_global w = None \<and>
          redis_out env (now w) = ConnectionError \<and> redis_out env (now w + 1) = Ok \<and>
          redis_out env (now w + 2) = Ok \<longrightarrow>
            post_to_redis env key (Some h) val 3 w =
              (True,
               w\<lparr>trace := trace w @
                   [SetKey h key val ConnectionError, Connect (now w + 1) host port Ok,
                    SetKey (now w + 1) key val Ok],
                 redis_client_global := Some (now w + 1)\<rparr>)"
    using publish_over_dropped_handle [OF _ host port, of w key h val] by blast
  have g: "redis_out env (now w) = OtherError \<longrightarrow>
            post_to_redis env key (Some h) val 3 w =
              (False, emit (SetKey h key val OtherError) w)"
    using publish_other_error [of env w key h val] by blast
  have i: "\<not> probe_raises env (iteration ls + 1) \<and> \<not> publish_raises env (iteration ls + 1) \<and>
          get_public_ip env 3 w = (Some ip, w1) \<and> ip \<noteq> [] \<and> last_successful_ip ls \<noteq> Some ip \<and>
          redis_client ls = Some h \<and> recovers env w1 \<longrightarrow>
            fst (main_step env (ls, w)) =
              ls\<lparr>iteration := iteration ls + 1, last_successful_ip := Some ip,
                 consecutive_errors := 0\<rparr>"
  proof (intro impI, elim conjE)
    assume h: "\<not> probe_raises env (iteration ls + 1)" "\<not> publish_raises env (iteration ls + 1)"
      "get_public_ip env 3 w = (Some ip, w1)" "ip \<noteq> []" "last_successful_ip ls \<noteq> Some ip"
      "redis_client ls = Some h"
      and r: "recovers env w1"
    obtain w2 where p: "post_to_redis env ip_key (Some h) ip 3 w1 = (True, w2)"
      using publish_recovers [OF host port r, of ip_key h ip] ..
    have p': "post_to_redis env ip_key (redis_client ls) ip 3 w1 = (True, w2)"
      unfolding h(6) by (rule p)
    show "fst (main_step env (ls, w)) =
              ls\<lparr>iteration := iteration ls + 1, last_successful_ip := Some ip,
                 consecutive_errors := 0\<rparr>"
      unfolding main_step_published [OF h(1) h(3) h(4) h(5) h(2) p'] by simp
  qed
  have j: "\<not> probe_raises env (iteration ls + 1) \<and> \<not> publish_raises env (iteration ls + 1) \<and>
          get_public_ip env 3 w = (Some ip, w1) \<and> ip \<noteq> [] \<and> last_successful_ip ls \<noteq> Some ip \<and>
          redis_client ls = Some h \<and> redis_out env (now w1) = OtherError \<longrightarrow>
            main_step env (ls, w) =
              (ls\<lparr>iteration := iteration ls + 1,
                  consecutive_errors := consecutive_errors ls + 1\<rparr>,
               emit (Sleep sleep_interval) (emit (SetKey h ip_key ip OtherError) w1))"
  proof (intro impI, elim conjE)
    assume h: "\<not> probe_raises env (iteration ls + 1)" "\<not> publish_raises env (iteration ls + 1)"
      "get_public_ip env 3 w = (Some ip, w1)" "ip \<noteq> []" "last_successful_ip ls \<noteq> Some ip"
      "redis_client ls = Some h"
      and r: "redis_out env (now w1) = OtherError"
    have p': "post_to_redis env ip_key (redis_client ls) ip 3 w1 =
        (False, emit (SetKey h ip_key ip OtherError) w1)"
      unfolding h(6) by (rule publish_other_error [OF r])
    show "main_step env (ls, w) =
              (ls\<lparr>iteration := iteration ls + 1,
                  consecutive_errors := consecutive_errors ls + 1\<rparr>,
               emit (Sleep sleep_interval) (emit (SetKey h ip_key ip OtherError) w1))"
      by (rule main_step_publish_failed [OF h(1) h(3) h(4) h(5) h(2) p'])
  qed
  show ?thesis
    by (intro conjI) (rule a, rule b, rule c, rule d, rule e, rule f, rule g, rule i, rule j)
qed


theorem stale_handle_is_replaced_witness:
  "get_redis_client relapse_env initial_world = (Some 0, connected_world) \<and>
   get_redis_client relapse_env connected_world = (Some 0, emit (Ping 0 Ok) connected_world) \<and>
   post_to_redis relapse_env ip_key (Some 0) ''203.0.113.7'' 3
       (emit (HttpGet ''https://api.ipify.org?format=text'' (Response 200 ''203.0.113.7''))
          connected_world) =
     (True,
      \<lparr>redis_client_global = Some 4,
       trace = [Connect 0 ''redis'' 6379 Ok,
                HttpGet ''https://api.ipify.org?format=text'' (Response 200 ''203.0.113.7''),
                SetKey 0 ip_key ''203.0.113.7'' ConnectionError, Ping 0 ConnectionError,
                Connect 4 ''redis'' 6379 Ok, SetKey 4 ip_key ''203.0.113.7'' Ok]\<rparr>) \<and>
   fst (main_step relapse_env
          (\<lparr>iteration = 0, consecutive_errors = 0, last_successful_ip = None,
            redis_client = Some 0\<rparr>, connected_world)) =
     \<lparr>iteration = 1, consecutive_errors = 0, last_successful_ip = Some ''203.0.113.7'',
      redis_client = Some 0\<rparr> \<and>
   main relapse_env 1 =
     (\<lparr>iteration = 1, consecutive_errors = 0, last_successful_ip = Some ''203.0.113.7'',
       redis_client = Some 0\<rparr>, reconnected_world) \<and>
   post_to_redis relapse_env ip_key (Some 0) ''198.51.100.9'' 3
       (emit (HttpGet ''https://api.ipify.org?format=text'' (Response 200 ''198.51.100.9''))
          reconnected_world) =
     (True,
      \<lparr>redis_client_global = Some 4,
       trace = trace reconnected_world @
               [HttpGet ''https://api.ipify.org?format=text'' (Response 200 ''198.51.100.9''),
                SetKey 0 ip_key ''198.51.100.9'' ConnectionError, Ping 4 Ok,
                SetKey 4 ip_key ''198.51.100.9'' Ok]\<rparr>) \<and>
   fst (main_step relapse_env
          (\<lparr>iteration = 1, consecutive_errors = 0, last_successful_ip = Some ''203.0.113.7'',
            redis_client = Some 0\<rparr>, reconnected_world)) =
     \<lparr>iteration = 2, consecutive_errors = 0, last_successful_ip = Some ''198.51.100.9'',
      redis_client = Some 0\<rparr> \<and>
   main_step hung_env
          (\<lparr>iteration = 0, consecutive_errors = 0, last_successful_ip = None,
            redis_client = Some 0\<rparr>, connected_world) =
     (\<lparr>iteration = 1, consecutive_errors = 1, last_successful_ip = None,
       redis_client = Some 0\<rparr>,
      \<lparr>redis_client_global = Some 0,
       trace = [Connect 0 ''redis'' 6379 Ok,
                HttpGet ''https://api.ipify.org?format=text'' (Response 200 ''203.0.113.7''),
                SetKey 0 ip_key ''203.0.113.7'' OtherError, Sleep 60]\<rparr>)"
proof -
  let ?ip = "''203.0.113.7''"
  let ?ip' = "''198.51.100.9''"
  let ?w1 = "emit (HttpGet ''https://api.ipify.org?format=text'' (Response 200 ?ip)) connected_world"
  let ?w1' = "emit (HttpGet ''https://api.ipify.org?format=text'' (Response 200 ?ip')) reconnected_world"
  let ?ls = "\<lparr>iteration = 0, consecutive_errors = 0, last_successful_ip = None,
            redis_client = Some 0\<rparr>"
  let ?ls' = "\<lparr>iteration = 1, consecutive_errors = 0, last_successful_ip = Some ?ip,
            redis_client = Some 0\<rparr>"
  have ci: "redis_client_global initial_world = None"
    by (simp add: initial_world_def)
  have c0: "redis_client_global connected_world = Some 0"
    by (simp add: connected_world_def)
  have c1: "redis_client_global ?w1 = Some 0"
    by (simp add: connected_world_def)
  have c1': "redis_client_global ?w1' = Some 4"
    by (simp add: reconnected_world_def)
  have ni: "now initial_world = 0" and n0: "now connected_world = 1" and n1: "now ?w1 = 2"
    and n0': "now reconnected_world = 7" and n1': "now ?w1' = 8"
    by (simp_all add: now_def connected_world_def initial_world_def reconnected_world_def)
  have host: "REDIS_HOST relapse_env = Some ''redis''" "''redis'' \<noteq> []"
    by (simp_all add: relapse_env_facts)
  have port: "py_int (int_max_str_digits relapse_env) (case REDIS_PORT relapse_env of None \<Rightarrow> ''6379'' | Some p \<Rightarrow> p) = Some 6379"
    by (simp add: relapse_env_facts default_port)
  have hhost: "REDIS_HOST hung_env = Some ''redis''"
    by (simp add: hung_env_facts)
  have hport: "py_int (int_max_str_digits hung_env) (case REDIS_PORT hung_env of None \<Rightarrow> ''6379'' | Some p \<Rightarrow> p) = Some 6379"
    by (simp add: hung_env_facts default_port)
  have g: "get_public_ip relapse_env 3 connected_world = (Some ?ip, ?w1)"
    using get_public_ip_first_answer [of relapse_env connected_world ?ip]
    by (simp add: relapse_env_facts valid_example_address n0)
  have g': "get_public_ip relapse_env 3 reconnected_world = (Some ?ip', ?w1')"
    using get_public_ip_first_answer [of relapse_env reconnected_world ?ip']
    by (simp add: relapse_env_facts valid_second_address n0')
  have gh: "get_public_ip hung_env 3 connected_world = (Some ?ip, ?w1)"
    using get_public_ip_first_answer [of hung_env connected_world ?ip]
    by (simp add: hung_env_facts valid_example_address)
  note at_boot = stale_handle_is_replaced [OF host port, where w = initial_world]
  note at_start = stale_handle_is_replaced [OF host port, where w = connected_world and hc = 0
      and ls = ?ls and ip = ?ip and ?w1.0 = ?w1 and h = 0]
  note at_publish = stale_handle_is_replaced [OF host port, where w = ?w1 and hc = 0
      and key = ip_key and val = ?ip and h = 0]
  note at_second = stale_handle_is_replaced [OF host port, where w = reconnected_world and hc = 4
      and ls = ?ls' and ip = ?ip' and ?w1.0 = ?w1' and h = 0]
  note at_relapse = stale_handle_is_replaced [OF host port, where w = ?w1' and hc = 4
      and key = ip_key and val = ?ip' and h = 0]
  note at_hang = stale_handle_is_replaced [OF hhost host(2) hport, where w = connected_world
      and ls = ?ls and ip = ?ip and ?w1.0 = ?w1 and h = 0]
  have boot': "get_redis_client relapse_env initial_world =
      (if redis_out relapse_env (now initial_world) = Ok then Some (now initial_world) else None,
       initial_world\<lparr>trace := trace initial_world @
           [Connect (now initial_world) ''redis'' 6379 (redis_out relapse_env (now initial_world))],
         redis_client_global :=
           if redis_out relapse_env (now initial_world) = Ok then Some (now initial_world) else None\<rparr>)"
    using at_boot [THEN conjunct2, THEN conjunct2, THEN conjunct1] ci by blast
  have boot: "get_redis_client relapse_env initial_world = (Some 0, connected_world)"
    unfolding boot' ni by (simp add: relapse_env_facts initial_world_def connected_world_def)
  have pa: "redis_out relapse_env (now connected_world) = Ok"
    by (simp add: n0 relapse_env_facts)
  have a: "get_redis_client relapse_env connected_world = (Some 0, emit (Ping 0 Ok) connected_world)"
    using at_start [THEN conjunct1] c0 pa by blast
  have pc: "redis_out relapse_env (now ?w1) = ConnectionError \<and>
      redis_out relapse_env (now ?w1 + 1) \<noteq> Ok \<and>
      redis_out relapse_env (now ?w1 + 2) = Ok \<and> redis_out relapse_env (now ?w1 + 3) = Ok"
    unfolding n1 by (simp add: relapse_env_facts)
  have c': "post_to_redis relapse_env ip_key (Some 0) ?ip 3 ?w1 =
      (True,
       ?w1\<lparr>trace := trace ?w1 @
           [SetKey 0 ip_key ?ip ConnectionError, Ping 0 (redis_out relapse_env (now ?w1 + 1)),
            Connect (now ?w1 + 2) ''redis'' 6379 Ok, SetKey (now ?w1 + 2) ip_key ?ip Ok],
         redis_client_global := Some (now ?w1 + 2)\<rparr>)"
    using at_publish [THEN conjunct2, THEN conjunct2, THEN conjunct2, THEN conjunct1] c1 pc by blast
  have c: "post_to_redis relapse_env ip_key (Some 0) ?ip 3 ?w1 =
     (True,
      \<lparr>redis_client_global = Some 4,
       trace = [Connect 0 ''redis'' 6379 Ok,
                HttpGet ''https://api.ipify.org?format=text'' (Response 200 ?ip),
                SetKey 0 ip_key ?ip ConnectionError, Ping 0 ConnectionError,
                Connect 4 ''redis'' 6379 Ok, SetKey 4 ip_key ?ip Ok]\<rparr>)"
    unfolding c' n1 by (simp add: relapse_env_facts connected_world_def emit_def)
  have r1: "recovers relapse_env ?w1"
    unfolding recovers_def n1 c1 by (simp add: relapse_env_facts)
  have pd: "\<not> probe_raises relapse_env (iteration ?ls + 1) \<and>
      \<not> publish_raises relapse_env (iteration ?ls + 1) \<and>
      get_public_ip relapse_env 3 connected_world = (Some ?ip, ?w1) \<and> ?ip \<noteq> [] \<and>
      last_successful_ip ?ls \<noteq> Some ?ip \<and> redis_client ?ls = Some 0"
    using g by (simp add: relapse_env_facts)
  have d': "fst (main_step relapse_env (?ls, connected_world)) =
      ?ls\<lparr>iteration := iteration ?ls + 1, last_successful_ip := Some ?ip,
          consecutive_errors := 0\<rparr>"
    using at_start [THEN conjunct2, THEN conjunct2, THEN conjunct2, THEN conjunct2, THEN conjunct2, THEN conjunct2, THEN conjunct2, THEN conjunct1] pd r1 by blast
  have d: "fst (main_step relapse_env (?ls, connected_world)) = ?ls'"
    unfolding d' by simp
  have m0: "main_init relapse_env initial_world = (?ls, connected_world)"
    by (simp add: main_init_def boot)
  have cl: "post_to_redis relapse_env ip_key (redis_client ?ls) ?ip 3 ?w1 =
     (True,
      \<lparr>redis_client_global = Some 4,
       trace = [Connect 0 ''redis'' 6379 Ok,
                HttpGet ''https://api.ipify.org?format=text'' (Response 200 ?ip),
                SetKey 0 ip_key ?ip ConnectionError, Ping 0 ConnectionError,
                Connect 4 ''redis'' 6379 Ok, SetKey 4 ip_key ?ip Ok]\<rparr>)"
    using c by simp
  have ms: "main_step relapse_env (?ls, connected_world) = (?ls', reconnected_world)"
    using main_step_published [of relapse_env ?ls connected_world ?ip ?w1, OF _ g _ _ _ cl]
    by (simp add: relapse_env_facts reconnected_world_def emit_def sleep_interval_def ip_key_def)
  have m1: "main relapse_env 1 = (?ls', reconnected_world)"
    by (simp add: main_def m0 ms)
  have pe: "redis_out relapse_env (now ?w1') = ConnectionError \<and>
      redis_out relapse_env (now ?w1' + 1) = Ok \<and> redis_out relapse_env (now ?w1' + 2) = Ok"
    unfolding n1' by (simp add: relapse_env_facts)
  have e': "post_to_redis relapse_env ip_key (Some 0) ?ip' 3 ?w1' =
      (True,
       ?w1'\<lparr>trace := trace ?w1' @
           [SetKey 0 ip_key ?ip' ConnectionError, Ping 4 Ok, SetKey 4 ip_key ?ip' Ok]\<rparr>)"
    using at_relapse [THEN conjunct2, THEN conjunct2, THEN conjunct2, THEN conjunct2, THEN conjunct1] c1' pe by blast
  have e: "post_to_redis relapse_env ip_key (Some 0) ?ip' 3 ?w1' =
     (True,
      \<lparr>redis_client_global = Some 4,
       trace = trace reconnected_world @
               [HttpGet ''https://api.ipify.org?format=text'' (Response 200 ?ip'),
                SetKey 0 ip_key ?ip' ConnectionError, Ping 4 Ok,
                SetKey 4 ip_key ?ip' Ok]\<rparr>)"
    unfolding e' by (simp add: reconnected_world_def emit_def)
  have r2: "recovers relapse_env ?w1'"
    unfolding recovers_def n1' c1' by (simp add: relapse_env_facts)
  have pf: "\<not> probe_raises relapse_env (iteration ?ls' + 1) \<and>
      \<not> publish_raises relapse_env (iteration ?ls' + 1) \<and>
      get_public_ip relapse_env 3 reconnected_world = (Some ?ip', ?w1') \<and> ?ip' \<noteq> [] \<and>
      last_successful_ip ?ls' \<noteq> Some ?ip' \<and> redis_client ?ls' = Some 0"
    using g' by (simp add: relapse_env_facts)
  have f': "fst (main_step relapse_env (?ls', reconnected_world)) =
      ?ls'\<lparr>iteration := iteration ?ls' + 1, last_successful_ip := Some ?ip',
          consecutive_errors := 0\<rparr>"
    using at_second [THEN conjunct2, THEN conjunct2, THEN conjunct2, THEN conjunct2, THEN conjunct2, THEN conjunct2, THEN conjunct2, THEN conjunct1] pf r2 by blast
  have f: "fst (main_step relapse_env (?ls', reconnected_world)) =
     \<lparr>iteration = 2, consecutive_errors = 0, last_successful_ip = Some ?ip',
      redis_client = Some 0\<rparr>"
    unfolding f' by simp
  have ph: "\<not> probe_raises hung_env (iteration ?ls + 1) \<and>
      \<not> publish_raises hung_env (iteration ?ls + 1) \<and>
      get_public_ip hung_env 3 connected_world = (Some ?ip, ?w1) \<and> ?ip \<noteq> [] \<and>
      last_successful_ip ?ls \<noteq> Some ?ip \<and> redis_client ?ls = Some 0 \<and>
      redis_out hung_env (now ?w1) = OtherError"
    using gh unfolding n1 by (simp add: hung_env_facts)
  have h': "main_step hung_env (?ls, connected_world) =
      (?ls\<lparr>iteration := iteration ?ls + 1, consecutive_errors := consecutive_errors ?ls + 1\<rparr>,
       emit (Sleep sleep_interval) (emit (SetKey 0 ip_key ?ip OtherError) ?w1))"
    using at_hang [THEN conjunct2, THEN conjunct2, THEN conjunct2, THEN conjunct2, THEN conjunct2, THEN conjunct2, THEN conjunct2, THEN conjunct2] ph by blast
  have h: "main_step hung_env (?ls, connected_world) =
     (\<lparr>iteration = 1, consecutive_errors = 1, last_successful_ip = None,
       redis_client = Some 0\<rparr>,
      \<lparr>redis_client_global = Some 0,
       trace = [Connect 0 ''redis'' 6379 Ok,
                HttpGet ''https://api.ipify.org?format=text'' (Response 200 ?ip),
                SetKey 0 ip_key ?ip OtherError, Sleep 60]\<rparr>)"
    unfolding h' by (simp add: connected_world_def emit_def sleep_interval_def)
  show ?thesis
    by (intro conjI) (rule boot, rule a, rule c, rule d, rule m1, rule e, rule f, rule h)
qed


text \<open>
  C7 as stated fails when the write over the invalidated handle raises an exception that
  is not a \<^verbatim>\<open>redis.ConnectionError\<close>, such as the \<^verbatim>\<open>redis.TimeoutError\<close> of a
  connection that hangs. In \<open>hung_env\<close> the store is reachable and the handle of the
  start is dead: a call of \<^verbatim>\<open>get_redis_client\<close> right after the failed write would see
  the ping fail and would connect a new client. But the publish makes no such call: it
  returns \<^verbatim>\<open>False\<close>, the loop counts a failure and records no address.
\<close>

theorem stale_handle_other_error_counterexample:
  "main hung_env 1 =
     (\<lparr>iteration = 1, consecutive_errors = 1, last_successful_ip = None,
       redis_client = Some 0\<rparr>,
      \<lparr>redis_client_global = Some 0,
       trace = [Connect 0 ''redis'' 6379 Ok,
                HttpGet ''https://api.ipify.org?format=text'' (Response 200 ''203.0.113.7''),
                SetKey 0 ip_key ''203.0.113.7'' OtherError, Sleep 60]\<rparr>) \<and>
   post_to_redis hung_env ip_key (Some 0) ''203.0.113.7'' 3
       (emit (HttpGet ''https://api.ipify.org?format=text'' (Response 200 ''203.0.113.7''))
          connected_world) =
     (False,
      emit (SetKey 0 ip_key ''203.0.113.7'' OtherError)
        (emit (HttpGet ''https://api.ipify.org?format=text'' (Response 200 ''203.0.113.7''))
           connected_world)) \<and>
   get_redis_client hung_env
       (emit (SetKey 0 ip_key ''203.0.113.7'' OtherError)
          (emit (HttpGet ''https://api.ipify.org?format=text'' (Response 200 ''203.0.113.7''))
             connected_world)) =
     (Some 4,
      \<lparr>redis_client_global = Some 4,
       trace = [Connect 0 ''redis'' 6379 Ok,
                HttpGet ''https://api.ipify.org?format=text'' (Response 200 ''203.0.113.7''),
                SetKey 0 ip_key ''203.0.113.7'' OtherError, Ping 0 ConnectionError,
                Connect 4 ''redis'' 6379 Ok]\<rparr>)"
proof -
  let ?ip = "''203.0.113.7''"
  let ?w1 = "emit (HttpGet ''https://api.ipify.org?format=text'' (Response 200 ?ip)) connected_world"
  let ?w2 = "emit (SetKey 0 ip_key ?ip OtherError) ?w1"
  let ?ls = "\<lparr>iteration = 0, consecutive_errors = 0, last_successful_ip = None,
            redis_client = Some 0\<rparr>"
  have ci: "redis_client_global initial_world = None"
    by (simp add: initial_world_def)
  have c2: "redis_client_global ?w2 = Some 0"
    by (simp add: connected_world_def)
  have ni: "now initial_world = 0" and n1: "now ?w1 = 2" and n2: "now ?w2 = 3"
    by (simp_all add: now_def connected_world_def initial_world_def)
  have host: "REDIS_HOST hung_env = Some ''redis''" "''redis'' \<noteq> []"
    by (simp_all add: hung_env_facts)
  have port: "py_int (int_max_str_digits hung_env) (case REDIS_PORT hung_env of None \<Rightarrow> ''6379'' | Some p \<Rightarrow> p) = Some 6379"
    by (simp add: hung_env_facts default_port)
  have boot: "get_redis_client hung_env initial_world = (Some 0, connected_world)"
    unfolding get_redis_client_uncached [OF ci host port] ni
    by (simp add: hung_env_facts initial_world_def connected_world_def)
  have m0: "main_init hung_env initial_world = (?ls, connected_world)"
    by (simp add: main_init_def boot)
  have g: "get_public_ip hung_env 3 connected_world = (Some ?ip, ?w1)"
    using get_public_ip_first_answer [of hung_env connected_world ?ip]
    by (simp add: hung_env_facts valid_example_address)
  have o: "redis_out hung_env (now ?w1) = OtherError"
    unfolding n1 by (simp add: hung_env_facts)
  have p: "post_to_redis hung_env ip_key (Some 0) ?ip 3 ?w1 = (False, ?w2)"
    by (rule publish_other_error [OF o])
  have pl: "post_to_redis hung_env ip_key (redis_client ?ls) ?ip 3 ?w1 = (False, ?w2)"
    using p by simp
  have ms: "main_step hung_env (?ls, connected_world) =
     (\<lparr>iteration = 1, consecutive_errors = 1, last_successful_ip = None,
       redis_client = Some 0\<rparr>,
      \<lparr>redis_client_global = Some 0,
       trace = [Connect 0 ''redis'' 6379 Ok,
                HttpGet ''https://api.ipify.org?format=text'' (Response 200 ?ip),
                SetKey 0 ip_key ?ip OtherError, Sleep 60]\<rparr>)"
    using main_step_publish_failed [of hung_env ?ls connected_world ?ip ?w1, OF _ g _ _ _ pl]
    by (simp add: hung_env_facts connected_world_def emit_def sleep_interval_def)
  have m1: "main hung_env 1 =
     (\<lparr>iteration = 1, consecutive_errors = 1, last_successful_ip = None,
       redis_client = Some 0\<rparr>,
      \<lparr>redis_client_global = Some 0,
       trace = [Connect 0 ''redis'' 6379 Ok,
                HttpGet ''https://api.ipify.org?format=text'' (Response 200 ?ip),
                SetKey 0 ip_key ?ip OtherError, Sleep 60]\<rparr>)"
    by (simp add: main_def m0 ms)
  have o2: "redis_out hung_env (now ?w2) \<noteq> Ok"
    unfolding n2 by (simp add: hung_env_facts)
  have q: "get_redis_client hung_env ?w2 =
     (Some 4,
      \<lparr>redis_client_global = Some 4,
       trace = [Connect 0 ''redis'' 6379 Ok,
                HttpGet ''https://api.ipify.org?format=text'' (Response 200 ?ip),
                SetKey 0 ip_key ?ip OtherError, Ping 0 ConnectionError,
                Connect 4 ''redis'' 6379 Ok]\<rparr>)"
    unfolding get_redis_client_dead [OF c2 host port o2] n2
    by (simp add: hung_env_facts connected_world_def emit_def)
  show ?thesis
    by (intro conjI) (rule m1, rule p, rule q)
qed


section \<open>Claims about change detection\<close>

text \<open>
  C3. Let the probe return the same address in \<open>n + 1\<close> consecutive iterations, let the
  address differ from \<^verbatim>\<open>last_successful_ip\<close> at the first of them, and let that first
  iteration publish successfully. Then the store accepts exactly one write in the first
  iteration, the following \<open>n\<close> iterations make no call to the store at all, so the
  store has received exactly one write after all of them, and \<^verbatim>\<open>last_successful_ip\<close> is
  that address. In any iteration \<^verbatim>\<open>last_successful_ip\<close> changes only when the publish
  succeeded, to the address just probed. After a failed publish it is unchanged, and if
  the next probe returns the same address again, the next iteration calls the publish
  again.
\<close>

theorem unchanged_address_is_written_once:
  assumes ip: "ip \<noteq> []"
      and new: "last_successful_ip ls \<noteq> Some ip"
      and same: "same_address env ip (Suc n) (ls, w)"
      and pub: "iteration_ending env (ls, w) = Published w2"
  shows "writes (trace (snd (main_step env (ls, w)))) = writes (trace w) + 1 \<and>
         filter is_store_call (trace (snd (main_loop env (Suc n) (ls, w)))) =
           filter is_store_call (trace (snd (main_step env (ls, w)))) \<and>
         writes (trace (snd (main_loop env (Suc n) (ls, w)))) = writes (trace w) + 1 \<and>
         last_successful_ip (fst (main_loop env (Suc n) (ls, w))) = Some ip \<and>
         last_successful_ip (fst (main_step env' (ls', w'))) =
           (case iteration_ending env' (ls', w') of
              Published x \<Rightarrow> probed env' (ls', w')
            | ProbeRaised x \<Rightarrow> last_successful_ip ls'
            | ProbeFailed x \<Rightarrow> last_successful_ip ls'
            | Skipped x \<Rightarrow> last_successful_ip ls'
            | PublishRaised x \<Rightarrow> last_successful_ip ls'
            | PublishFailed x \<Rightarrow> last_successful_ip ls') \<and>
         (iteration_ending env' (ls', w') = PublishFailed x' \<and>
          probed env' (main_step env' (ls', w')) = probed env' (ls', w') \<longrightarrow>
            last_successful_ip (fst (main_step env' (ls', w'))) = last_successful_ip ls' \<and>
            publish_attempted (iteration_ending env' (main_step env' (ls', w'))))"
proof -
  have pr: "probed env (ls, w) = Some ip" and rest: "same_address env ip n (main_step env (ls, w))"
    using same by simp_all
  obtain w1 where f: "\<not> probe_raises env (iteration ls + 1)" "get_public_ip env 3 w = (Some ip, w1)"
    "\<not> publish_raises env (iteration ls + 1)"
    "post_to_redis env ip_key (redis_client ls) ip 3 w1 = (True, w2)"
    using pub pr by (cases rule: ending_cases [of env ls w]) simp_all
  note step = main_step_published [OF f(1,2) ip new f(3,4)]
  have w1: "writes (trace w1) = writes (trace w)"
    using get_public_ip_store_calls [OF f(2)] writes_filter [of "trace w1"] writes_filter [of "trace w"]
    by simp
  have a: "writes (trace (snd (main_step env (ls, w)))) = writes (trace w) + 1"
    using post_to_redis_writes [OF f(4)] w1 by (simp add: step writes_def)
  have l1: "last_successful_ip (fst (main_step env (ls, w))) = Some ip"
    by (simp add: step)
  note run = skip_run [OF l1 ip rest]
  have b: "filter is_store_call (trace (snd (main_loop env (Suc n) (ls, w)))) =
           filter is_store_call (trace (snd (main_step env (ls, w))))"
    using run by simp
  have c: "writes (trace (snd (main_loop env (Suc n) (ls, w)))) = writes (trace w) + 1"
    using writes_filter [of "trace (snd (main_loop env (Suc n) (ls, w)))"]
      writes_filter [of "trace (snd (main_step env (ls, w)))"] a
    unfolding b by simp
  have d: "last_successful_ip (fst (main_loop env (Suc n) (ls, w))) = Some ip"
    using run by simp
  have e: "iteration_ending env' (ls', w') = PublishFailed x' \<and>
          probed env' (main_step env' (ls', w')) = probed env' (ls', w') \<longrightarrow>
            last_successful_ip (fst (main_step env' (ls', w'))) = last_successful_ip ls' \<and>
            publish_attempted (iteration_ending env' (main_step env' (ls', w')))"
    using retry_after_failed_publish [of env' ls' w' x'] by blast
  show ?thesis
    by (intro conjI) (rule a, rule b, rule c, rule d, rule last_ip_by_ending, rule e)
qed


theorem unchanged_address_is_written_once_witness:
  "writes (trace (snd (main_loop calm_env 3
       (\<lparr>iteration = 0, consecutive_errors = 0, last_successful_ip = None,
         redis_client = Some 0\<rparr>, connected_world)))) = 1 \<and>
   last_successful_ip (fst (main_loop calm_env 3
       (\<lparr>iteration = 0, consecutive_errors = 0, last_successful_ip = None,
         redis_client = Some 0\<rparr>, connected_world))) = Some ''203.0.113.7'' \<and>
   publish_attempted (iteration_ending down_env (main_step down_env
       (\<lparr>iteration = 0, consecutive_errors = 0, last_successful_ip = None,
         redis_client = Some 0\<rparr>, connected_world)))"
proof -
  let ?ip = "''203.0.113.7''"
  let ?ls = "\<lparr>iteration = 0, consecutive_errors = 0, last_successful_ip = None,
         redis_client = Some 0\<rparr>"
  let ?w1 = "emit (HttpGet ''https://api.ipify.org?format=text'' (Response 200 ?ip)) connected_world"
  have n3: "(3::nat) = Suc 2" by simp
  have h1: "?ip \<noteq> []" by simp
  have h2: "last_successful_ip ?ls \<noteq> Some ?ip" by simp
  have h3: "same_address calm_env ?ip (Suc 2) (?ls, connected_world)"
    using answering_same_address [OF calm_env_facts(1,3), of "Suc 2" "(?ls, connected_world)"]
    by (simp add: valid_example_address del: same_address.simps)
  have g: "get_public_ip calm_env 3 connected_world = (Some ?ip, ?w1)"
    using get_public_ip_first_answer [of calm_env connected_world ?ip]
    by (simp add: calm_env_facts valid_example_address)
  have p: "post_to_redis calm_env ip_key (Some 0) ?ip 3 ?w1 = (True, emit (SetKey 0 ip_key ?ip Ok) ?w1)"
    using set_attempts_final [of calm_env ?w1 Ok 0 3 ip_key ?ip "[1, 2]" 0]
    by (simp add: post_to_redis_def upt_3 calm_env_facts)
  have h4: "iteration_ending calm_env (?ls, connected_world) = Published (emit (SetKey 0 ip_key ?ip Ok) ?w1)"
    by (simp add: iteration_ending_def calm_env_facts g p)
  note once = unchanged_address_is_written_once [OF h1 h2 h3 h4]
  have a: "writes (trace (snd (main_loop calm_env 3 (?ls, connected_world)))) = 1"
    using once unfolding n3 by (simp add: connected_world_def writes_def)
  have b: "last_successful_ip (fst (main_loop calm_env 3 (?ls, connected_world))) = Some ?ip"
    using once unfolding n3 by blast
  have g': "get_public_ip down_env 3 connected_world = (Some ?ip, ?w1)"
    using get_public_ip_first_answer [of down_env connected_world ?ip]
    by (simp add: down_env_facts valid_example_address)
  have p': "fst (post_to_redis down_env ip_key (Some 0) ?ip 3 ?w1) = False"
    by (simp add: post_to_redis_def upt_3 get_redis_client_def connect_redis_def default_port
        down_env_facts connected_world_def Let_def)
  have h5: "iteration_ending down_env (?ls, connected_world) =
      PublishFailed (snd (post_to_redis down_env ip_key (Some 0) ?ip 3 ?w1))"
    using p' by (auto simp add: iteration_ending_def down_env_facts g' split: prod.splits)
  have sa: "same_address down_env ?ip (Suc (Suc 0)) (?ls, connected_world)"
    using answering_same_address [OF down_env_facts(1,3), of "Suc (Suc 0)" "(?ls, connected_world)"]
    by (simp add: valid_example_address del: same_address.simps)
  have h6: "probed down_env (main_step down_env (?ls, connected_world)) =
      probed down_env (?ls, connected_world)"
    using sa by simp
  have c: "publish_attempted (iteration_ending down_env (main_step down_env (?ls, connected_world)))"
    using unchanged_address_is_written_once [OF h1 h2 h3 h4,
        where ls' = ?ls and w' = connected_world and env' = down_env] h5 h6
    by blast
  show ?thesis
    using a b c by simp
qed


section \<open>Claims about stopping the monitor\<close>



end
